theory Spec2Isabelle
  imports Complex_Main "HOL-Library.Word"
begin

unbundle bit_operations_syntax

section \<open>Machine types\<close>

text \<open>
  \<open>std::size_t\<close> is a 64-bit unsigned integer (the bit array is sized with
  \<open>1ull << 33\<close>), \<open>int\<close> a 32-bit two's complement integer. Arithmetic on
  both wraps around.
\<close>

type_synonym size_t = "64 word"
type_synonym cxx_int = "32 word"

text \<open>
  \<open>static_cast<std::size_t>(c)\<close> for a plain \<open>char c\<close>. Whether plain
  \<open>char\<close> is signed is the compiler's choice (it is on x86-64 g++, it is not on
  ARM), so the choice is an argument: a signed \<open>char\<close> is sign-extended, an
  unsigned one zero-extended.
\<close>

definition char_to_size_t :: "bool \<Rightarrow> char \<Rightarrow> size_t" where
  "char_to_size_t char_signed c =
     (if char_signed then scast (of_nat (of_char c) :: 8 word)
      else ucast (of_nat (of_char c) :: 8 word))"

section \<open>util.cc: the djb2 string hash\<close>

definition kHashDjb2 :: size_t where
  "kHashDjb2 = 5381"

text \<open>The body of the range-for loop of \<open>Djb2\<close>, one character at a time.\<close>

fun Djb2_loop :: "bool \<Rightarrow> size_t \<Rightarrow> string \<Rightarrow> size_t" where
  "Djb2_loop char_signed hash [] = hash"
| "Djb2_loop char_signed hash (c # cs) =
     Djb2_loop char_signed ((push_bit 5 hash + hash) + char_to_size_t char_signed c) cs"

definition Djb2 :: "bool \<Rightarrow> string \<Rightarrow> size_t" where
  "Djb2 char_signed str = Djb2_loop char_signed kHashDjb2 str"

section \<open>bloom\_filter.h: the class template \<open>BloomFilter<T>\<close>\<close>

subsection \<open>Data members\<close>

text \<open>
  The four data members. \<open>std::vector<bool>\<close> is a list of booleans;
  the trailing underscore of the member names is written \<open>_'\<close>.
\<close>

record BloomFilter =
  filter_' :: "bool list"
  num_hashes_' :: size_t
  size_' :: size_t
  parameter_error_flags_' :: cxx_int

text \<open>
  What an instantiation \<open>BloomFilter<T>\<close> takes from the compiler and the
  standard library: the signedness of plain \<open>char\<close>, \<open>std::hash<T>\<close>, and
  the text that \<open>SecondHash\<close> hashes: \<open>std::to_string(entry)\<close> for the nine
  numeric types, the entry itself in the explicit specialisation for
  \<open>std::string\<close>. None of the three is defined in the repository.
\<close>

record 'a template_arg =
  plain_char_signed :: bool
  std_hash :: "'a \<Rightarrow> size_t"
  std_to_string :: "'a \<Rightarrow> string"

definition kHasLog2NumBitsError :: cxx_int where
  "kHasLog2NumBitsError = 0x1"

definition kHasNumHashesError :: cxx_int where
  "kHasNumHashesError = 0x2"

definition kDefaultLog2NumBits :: size_t where
  "kDefaultLog2NumBits = 8"

definition kNumDefaultNumHashes :: size_t where
  "kNumDefaultNumHashes = 5"

subsection \<open>Queries and error flags\<close>

definition NumBits :: "BloomFilter \<Rightarrow> size_t" where
  "NumBits bf = of_nat (length (filter_' bf))"

definition NumHashes :: "BloomFilter \<Rightarrow> size_t" where
  "NumHashes bf = num_hashes_' bf"

definition Size :: "BloomFilter \<Rightarrow> size_t" where
  "Size bf = size_' bf"

definition ParameterErrorFlags :: "BloomFilter \<Rightarrow> cxx_int" where
  "ParameterErrorFlags bf = parameter_error_flags_' bf"

definition ClearParameterError :: "cxx_int \<Rightarrow> BloomFilter \<Rightarrow> BloomFilter" where
  "ClearParameterError flag bf =
     bf\<lparr>parameter_error_flags_' := parameter_error_flags_' bf AND NOT flag\<rparr>"

text \<open>The call without an argument: the default argument is \<open>-1\<close>.\<close>

definition ClearParameterError_default :: "BloomFilter \<Rightarrow> BloomFilter" where
  "ClearParameterError_default bf = ClearParameterError (- 1) bf"

definition HasParameterError :: "BloomFilter \<Rightarrow> bool" where
  "HasParameterError bf = (parameter_error_flags_' bf \<noteq> 0)"

definition ModNumBits :: "BloomFilter \<Rightarrow> size_t \<Rightarrow> size_t" where
  "ModNumBits bf x = (let mask = NumBits bf - 1 in x AND mask)"

subsection \<open>Setters\<close>

text \<open>
  \<open>std::vector<bool>::resize(n)\<close>: the first \<open>n\<close> elements are kept, and
  the vector is filled up to \<open>n\<close> elements with \<open>false\<close>.
\<close>

definition vector_resize :: "nat \<Rightarrow> bool list \<Rightarrow> bool list" where
  "vector_resize n v = take n v @ replicate (n - length v) False"

definition SetLog2NumBits :: "size_t \<Rightarrow> BloomFilter \<Rightarrow> bool \<times> BloomFilter" where
  "SetLog2NumBits log2_num_bits bf =
     (if log2_num_bits > 33 then
        (False,
         bf\<lparr>filter_' := vector_resize (unat (push_bit 33 (1 :: size_t))) (filter_' bf),
            parameter_error_flags_' := parameter_error_flags_' bf OR kHasLog2NumBitsError\<rparr>)
      else
        (True,
         ClearParameterError kHasLog2NumBitsError
           (bf\<lparr>filter_' :=
                 vector_resize (unat (push_bit (unat log2_num_bits) (1 :: size_t)))
                   (filter_' bf)\<rparr>)))"

definition SetNumHashes :: "size_t \<Rightarrow> BloomFilter \<Rightarrow> bool \<times> BloomFilter" where
  "SetNumHashes num_hashes bf =
     (if num_hashes < 1 then
        (False,
         bf\<lparr>num_hashes_' := 1,
            parameter_error_flags_' := parameter_error_flags_' bf OR kHasNumHashesError\<rparr>)
      else
        (True, ClearParameterError kHasNumHashesError (bf\<lparr>num_hashes_' := num_hashes\<rparr>)))"

text \<open>
  \<open>static_cast<int>(x)\<close> for a \<open>double x\<close>: the value is truncated towards
  zero, and the behaviour is undefined (\<open>None\<close>) when the truncated value is
  not an \<open>int\<close>.
\<close>

definition double_to_int :: "real \<Rightarrow> cxx_int option" where
  "double_to_int x =
     (let t = (if 0 \<le> x then \<lfloor>x\<rfloor> else \<lceil>x\<rceil>)
      in if - (2 ^ 31) \<le> t \<and> t < 2 ^ 31 then Some (of_int t) else None)"

text \<open>
  \<open>SetOptimalNumHashes\<close>. The \<open>double\<close> expression
  \<open>std::log(2) * NumBits() / max_num_entries\<close> is evaluated in real
  arithmetic, \<open>ln 2 * NumBits() / max_num_entries\<close>: the rounding of IEEE
  arithmetic is not modelled. With \<open>max_num_entries = 0\<close> the quotient is
  infinite and its conversion to \<open>int\<close> undefined. The \<open>int\<close> is then
  converted to \<open>std::size_t\<close> (sign-extended).
\<close>

definition SetOptimalNumHashes :: "size_t \<Rightarrow> BloomFilter \<Rightarrow> (bool \<times> BloomFilter) option" where
  "SetOptimalNumHashes max_num_entries bf =
     (if max_num_entries = 0 then None
      else
        (case double_to_int (ln 2 * real (unat (NumBits bf)) / real (unat max_num_entries)) of
           None \<Rightarrow> None
         | Some k \<Rightarrow>
             (let num_hashes = (scast k :: size_t);
                  (successful, bf1) = SetNumHashes num_hashes bf
              in Some (successful, ClearParameterError kHasNumHashesError bf1))))"

text \<open>
  The same member function for any value \<open>optimum (NumBits()) max_num_entries\<close>
  of the \<open>double\<close> expression: what is proved of it holds however the
  \<open>double\<close> arithmetic rounds. \<open>exact_optimum\<close> is the value that
  \<open>SetOptimalNumHashes\<close> above takes.
\<close>

definition SetOptimalNumHashes_with ::
  "(nat \<Rightarrow> nat \<Rightarrow> real) \<Rightarrow> size_t \<Rightarrow> BloomFilter \<Rightarrow> (bool \<times> BloomFilter) option" where
  "SetOptimalNumHashes_with optimum max_num_entries bf =
     (if max_num_entries = 0 then None
      else
        (case double_to_int (optimum (unat (NumBits bf)) (unat max_num_entries)) of
           None \<Rightarrow> None
         | Some k \<Rightarrow>
             (let num_hashes = (scast k :: size_t);
                  (successful, bf1) = SetNumHashes num_hashes bf
              in Some (successful, ClearParameterError kHasNumHashesError bf1))))"

definition exact_optimum :: "nat \<Rightarrow> nat \<Rightarrow> real" where
  "exact_optimum n m = ln 2 * real n / real m"

subsection \<open>Constructors\<close>

text \<open>
  The member initialisers set \<open>size_\<close> and \<open>parameter_error_flags_\<close>;
  \<open>filter_\<close> is default-constructed (empty) and \<open>num_hashes_\<close> is
  indeterminate (here \<open>u\<close>) until the body assigns it.
\<close>

definition member_init :: "size_t \<Rightarrow> BloomFilter" where
  "member_init u =
     \<lparr>filter_' = [], num_hashes_' = u, size_' = 0, parameter_error_flags_' = 0\<rparr>"

definition BloomFilter2 :: "size_t \<Rightarrow> size_t \<Rightarrow> BloomFilter" where
  "BloomFilter2 num_bits num_hashes =
     snd (SetNumHashes num_hashes (snd (SetLog2NumBits num_bits (member_init 0))))"

definition BloomFilter1 :: "size_t \<Rightarrow> BloomFilter" where
  "BloomFilter1 num_bits = BloomFilter2 num_bits kNumDefaultNumHashes"

definition BloomFilter0 :: BloomFilter where
  "BloomFilter0 = BloomFilter1 kDefaultLog2NumBits"

subsection \<open>Hashing\<close>

definition FirstHash :: "'a template_arg \<Rightarrow> BloomFilter \<Rightarrow> 'a \<Rightarrow> size_t" where
  "FirstHash T bf entry = ModNumBits bf (std_hash T entry)"

definition SecondHash :: "'a template_arg \<Rightarrow> BloomFilter \<Rightarrow> 'a \<Rightarrow> size_t" where
  "SecondHash T bf entry =
     ModNumBits bf
       (push_bit 1 (Djb2 (plain_char_signed T) (std_to_string T entry)) OR 1)"

text \<open>The \<open>for\<close> loop of \<open>Hash\<close>, from \<open>i\<close> on.\<close>

function Hash_loop ::
  "size_t \<Rightarrow> size_t \<Rightarrow> size_t \<Rightarrow> size_t \<Rightarrow> size_t \<Rightarrow> size_t list \<Rightarrow> size_t list" where
  "Hash_loop num_hashes mask' i a b hashes =
     (if i < num_hashes then
        (let a' = (a + b) AND mask';
             b' = (b + i) AND mask'
         in Hash_loop num_hashes mask' (i + 1) a' b' (hashes[unat i := a']))
      else hashes)"
  by pat_completeness auto
termination
proof (relation "measure (\<lambda>(num_hashes, mask', i, a, b, hashes). unat num_hashes - unat i)")
  show "wf (measure (\<lambda>(num_hashes, mask', i, a, b, hashes). unat num_hashes - unat i))"
    by simp
next
  fix num_hashes mask' i a b :: size_t and hashes :: "size_t list" and x xa
  assume "i < num_hashes"
  then have less: "unat i < unat num_hashes"
    by (simp add: word_less_nat_alt)
  have "unat num_hashes < 2 ^ LENGTH(64)"
    by (rule unsigned_less)
  with less have "unat i + unat (1 :: size_t) < 2 ^ LENGTH(64)"
    by simp
  then have "unat (i + 1) = unat i + unat (1 :: size_t)"
    by (simp only: unat_add_lem)
  with less have "unat num_hashes - unat (i + 1) < unat num_hashes - unat i"
    by simp
  then show
    "((num_hashes, mask', i + 1, x, xa, hashes[unat i := x]),
      (num_hashes, mask', i, a, b, hashes))
     \<in> measure (\<lambda>(num_hashes, mask', i, a, b, hashes). unat num_hashes - unat i)"
    by simp
qed

text \<open>
  \<open>std::vector<std::size_t> hashes(num_hashes)\<close> holds \<open>num_hashes\<close>
  zeros; \<open>hashes[0] = a\<close> writes the first. The write is out of bounds when
  \<open>num_hashes\<close> is 0, which the class invariant below excludes; the loop
  writes at \<open>i < num_hashes\<close> only.
\<close>

definition Hash :: "'a template_arg \<Rightarrow> BloomFilter \<Rightarrow> 'a \<Rightarrow> size_t list" where
  "Hash T bf entry =
     (let a = FirstHash T bf entry;
          b = SecondHash T bf entry;
          num_hashes = NumHashes bf;
          hashes = (replicate (unat num_hashes) 0)[0 := a];
          mask = NumBits bf - 1
      in Hash_loop num_hashes mask 1 a b hashes)"

subsection \<open>Insert and Contains\<close>

text \<open>
  \<open>filter_[hash]\<close> is neither checked nor extended in C++. Under the class
  invariant every position that \<open>Hash\<close> returns is inside the bit array
  (\<open>Hash_in_range\<close> below), so the reads and writes of the two loops are in
  range.
\<close>

fun Insert_loop :: "bool list \<Rightarrow> size_t list \<Rightarrow> bool list" where
  "Insert_loop filt [] = filt"
| "Insert_loop filt (hash # hashes) = Insert_loop (filt[unat hash := True]) hashes"

definition Insert :: "'a template_arg \<Rightarrow> BloomFilter \<Rightarrow> 'a \<Rightarrow> BloomFilter" where
  "Insert T bf entry =
     (let hashes = Hash T bf entry
      in bf\<lparr>filter_' := Insert_loop (filter_' bf) hashes, size_' := size_' bf + 1\<rparr>)"

fun Contains_loop :: "bool list \<Rightarrow> size_t list \<Rightarrow> bool" where
  "Contains_loop filt [] = True"
| "Contains_loop filt (hash # hashes) =
     (if \<not> filt ! unat hash then False else Contains_loop filt hashes)"

definition Contains :: "'a template_arg \<Rightarrow> BloomFilter \<Rightarrow> 'a \<Rightarrow> bool" where
  "Contains T bf entry = (let hashes = Hash T bf entry in Contains_loop (filter_' bf) hashes)"

section \<open>The class invariant, the specified probe sequence, sequences of calls\<close>

text \<open>
  What the constructors establish and every member function keeps: the bit
  array has \<open>2 ^ e\<close> bits for some \<open>e \<le> 33\<close>, and there is at least one
  hash function. Failure of an allocation (\<open>std::bad_alloc\<close>) is not modelled.
\<close>

definition class_invariant :: "BloomFilter \<Rightarrow> bool" where
  "class_invariant bf \<longleftrightarrow>
     (\<exists>e \<in> {0..33}. length (filter_' bf) = 2 ^ e) \<and> 1 \<le> num_hashes_' bf"

text \<open>
  Enhanced double hashing as the specification words it, on natural numbers:
  \<open>hashes[0] = h1\<close> and, for \<open>i = 1 .. k - 1\<close>,
  \<open>a \<leftarrow> (a + b) mod N\<close>, \<open>b \<leftarrow> (b + i) mod N\<close>, \<open>hashes[i] = a\<close>.
  \<open>probe_steps N a b i n\<close> are the \<open>n\<close> positions from step \<open>i\<close> on.
\<close>

fun probe_steps :: "nat \<Rightarrow> nat \<Rightarrow> nat \<Rightarrow> nat \<Rightarrow> nat \<Rightarrow> nat list" where
  "probe_steps N a b i 0 = []"
| "probe_steps N a b i (Suc n) =
     (let a' = (a + b) mod N; b' = (b + i) mod N
      in a' # probe_steps N a' b' (i + 1) n)"

definition enhanced_double_hashing :: "nat \<Rightarrow> nat \<Rightarrow> nat \<Rightarrow> nat \<Rightarrow> nat list" where
  "enhanced_double_hashing N k h1 h2 = h1 # probe_steps N h1 h2 1 (k - 1)"

text \<open>
  A sequence of \<open>Insert\<close> and \<open>Contains\<close> calls on one filter.
  \<open>Contains\<close> is a \<open>const\<close> member function: the filter after the call is
  the filter before it.
\<close>

datatype 'a call = Call_Insert 'a | Call_Contains 'a

fun after_call :: "'a template_arg \<Rightarrow> BloomFilter \<Rightarrow> 'a call \<Rightarrow> BloomFilter" where
  "after_call T bf (Call_Insert entry) = Insert T bf entry"
| "after_call T bf (Call_Contains entry) = bf"

text \<open>
  An instantiation for \<open>std::string\<close> to run examples on: plain \<open>char\<close> is
  signed, the length of the string stands for \<open>std::hash<std::string>\<close>,
  and \<open>SecondHash\<close> hashes the entry itself.
\<close>

definition example_string :: "string template_arg" where
  "example_string =
     \<lparr>plain_char_signed = True, std_hash = (\<lambda>s. of_nat (length s)), std_to_string = (\<lambda>s. s)\<rparr>"

text \<open>
  The equation of \<open>Hash_loop\<close> rewrites its own right-hand side, so it is
  applied by hand.
\<close>

declare Hash_loop.simps [simp del]

section \<open>Words, bit masks and flags\<close>

lemma unat_and_mask_mod: "unat ((x :: size_t) AND mask e) = unat x mod 2 ^ e"
  by (metis take_bit_eq_mask unsigned_take_bit_eq take_bit_eq_mod)

lemma pow2_minus_1_mask: "(2 ^ e - 1 :: size_t) = mask e"
  by (simp add: mask_eq_exp_minus_1)

lemma unat_add_and_mask:
  assumes "e \<le> 64"
  shows "unat ((x + y :: size_t) AND mask e) = (unat x + unat y) mod 2 ^ e"
proof -
  have "(2::nat) ^ e dvd 2 ^ 64"
    using assms by (rule le_imp_power_dvd)
  then have "(unat x + unat y) mod 2 ^ 64 mod 2 ^ e = (unat x + unat y) mod 2 ^ e"
    by (rule mod_mod_cancel)
  then show ?thesis
    by (simp add: unat_and_mask_mod unat_word_ariths)
qed

lemma word_less_unat_Suc:
  assumes "i < (k :: size_t)"
  shows "unat (i + 1) = Suc (unat i)" and "unat i < unat k"
proof -
  from assms show less: "unat i < unat k"
    by (simp add: word_less_nat_alt)
  have "unat k < 2 ^ LENGTH(64)"
    by (rule unsigned_less)
  with less have "unat i + unat (1 :: size_t) < 2 ^ LENGTH(64)"
    by simp
  then have "unat (i + 1) = unat i + unat (1 :: size_t)"
    by (simp only: unat_add_lem)
  then show "unat (i + 1) = Suc (unat i)"
    by simp
qed

lemma unat_pow2:
  assumes "e \<le> 33"
  shows "unat (2 ^ e :: size_t) = 2 ^ e"
proof -
  from assms have "(2::nat) ^ e < 2 ^ 64"
    by (intro power_strict_increasing) simp_all
  moreover have "unat (of_nat (2 ^ e) :: size_t) = 2 ^ e mod 2 ^ LENGTH(64)"
    by (rule unat_of_nat)
  ultimately show ?thesis
    by simp
qed

lemma unat_shift_one:
  assumes "e \<le> 33"
  shows "unat (push_bit (unat (e :: size_t)) (1 :: size_t)) = 2 ^ unat e"
proof -
  from assms have "unat e \<le> 33"
    by (simp add: word_le_nat_alt)
  then have "unat (2 ^ unat e :: size_t) = 2 ^ unat e"
    by (rule unat_pow2)
  then show ?thesis
    by (simp add: push_bit_eq_mult)
qed

lemma unat_shift_33: "unat (push_bit 33 (1 :: size_t)) = 2 ^ 33"
  by simp

lemma or_and_not: "(x OR y) AND NOT y = x AND NOT (y :: cxx_int)"
  by (auto simp: bit_eq_iff bit_simps)

lemma flag_set: "(x OR kHasLog2NumBitsError) AND kHasLog2NumBitsError = kHasLog2NumBitsError"
  "(x OR kHasNumHashesError) AND kHasNumHashesError = kHasNumHashesError"
  by (auto simp: bit_eq_iff bit_simps)

lemma flag_clear: "(x AND NOT kHasLog2NumBitsError) AND kHasLog2NumBitsError = 0"
  "(x AND NOT kHasNumHashesError) AND kHasNumHashesError = 0"
  by (auto simp: bit_eq_iff bit_simps)

lemma flag_nonzero: "kHasLog2NumBitsError \<noteq> 0" "kHasNumHashesError \<noteq> 0"
  by (simp_all add: kHasLog2NumBitsError_def kHasNumHashesError_def)

lemma flag_or_nonzero: "x OR kHasLog2NumBitsError \<noteq> 0" "x OR kHasNumHashesError \<noteq> 0"
  using flag_set [of x] flag_nonzero by (metis and_zero_eq word_bw_comms(1))+

lemma scast_of_int:
  "- (2 ^ 31) \<le> k \<Longrightarrow> k < 2 ^ 31 \<Longrightarrow> scast (of_int k :: cxx_int) = (of_int k :: size_t)"
  by (simp add: scast_eq sint_sbintrunc' signed_take_bit_int_eq_self)

lemma of_int_eq_0:
  assumes "0 \<le> k" and "k < 2 ^ 31"
  shows "(of_int k :: size_t) = 0 \<longleftrightarrow> k = 0"
proof
  assume "(of_int k :: size_t) = 0"
  then have "uint (of_int k :: size_t) = 0"
    by simp
  moreover from assms have "take_bit 64 k = k"
    by (simp add: take_bit_int_eq_self)
  ultimately show "k = 0"
    by (simp add: uint_word_of_int_eq)
qed simp

lemma odd_unat:
  assumes "odd (x :: size_t)"
  shows "odd (unat x)"
proof
  assume "even (unat x)"
  then have "even (of_nat (unat x) :: size_t)"
    by (simp only: even_of_nat)
  then have "even x"
    by simp
  with assms show False
    by simp
qed

section \<open>The djb2 hash\<close>

lemma Djb2_loop_foldl:
  "Djb2_loop sg h s = foldl (\<lambda>hash c. hash * 33 + char_to_size_t sg c) h s"
  by (induction s arbitrary: h) (simp_all add: push_bit_eq_mult algebra_simps)

lemma unat_djb2_step:
  "unat (push_bit 5 h + h + (x :: size_t)) = (unat h * 33 + unat x) mod 2 ^ 64"
proof -
  have "push_bit 5 h + h = h * 33"
    by (simp add: push_bit_eq_mult)
  then have "unat (push_bit 5 h + h + x) = unat (h * 33 + x)"
    by (simp only:)
  also have "\<dots> = (unat (h * 33) + unat x) mod 2 ^ 64"
    by (simp add: unat_word_ariths(1))
  also have "unat (h * 33) = (unat h * 33) mod 2 ^ 64"
    by (simp add: unat_word_ariths(2))
  also have "((unat h * 33) mod 2 ^ 64 + unat x) mod 2 ^ 64 = (unat h * 33 + unat x) mod 2 ^ 64"
    by (rule mod_add_left_eq)
  finally show ?thesis .
qed

lemma Djb2_loop_unat:
  "unat (Djb2_loop sg h s) =
     foldl (\<lambda>hash c. (hash * 33 + unat (char_to_size_t sg c)) mod 2 ^ 64) (unat h) s"
  by (induction s arbitrary: h) (simp_all only: Djb2_loop.simps foldl.simps unat_djb2_step)

lemma char_to_size_t_unsigned: "char_to_size_t False c = of_nat (of_char c)"
proof -
  have "take_bit 8 (of_char c :: nat) = of_char c"
    by (rule take_bit_nat_eq_self) (use nat_of_char_less_256 [of c] in simp)
  then show ?thesis
    by (simp add: char_to_size_t_def unsigned_of_nat)
qed

lemma char_to_size_t_ascii:
  assumes "of_char c < (128 :: nat)"
  shows "char_to_size_t char_signed c = of_nat (of_char c)"
proof (cases char_signed)
  case True
  from assms have "signed_take_bit 7 (int (of_char c)) = int (of_char c)"
    by (intro signed_take_bit_int_eq_self) simp_all
  with True show ?thesis
    by (simp add: char_to_size_t_def signed_of_nat)
next
  case False
  then show ?thesis
    by (simp add: char_to_size_t_unsigned)
qed

lemma mod_256_high:
  assumes "128 \<le> k" and "k < 256"
  shows "(k + 128) mod 256 = k - (128 :: int)"
proof -
  have "k + 128 = (k - 128) + 256"
    by simp
  then have "(k + 128) mod 256 = ((k - 128) + 256) mod 256"
    by (simp only:)
  also have "\<dots> = (k - 128) mod 256"
    by (rule mod_add_self2)
  also from assms have "\<dots> = k - 128"
    by (intro mod_pos_pos_trivial) simp_all
  finally show ?thesis .
qed

lemma signed_take_bit_high:
  assumes "128 \<le> k" and "k < 256"
  shows "signed_take_bit 7 (k :: int) = k - 256"
proof -
  have "signed_take_bit 7 k = take_bit (Suc 7) (k + 2 ^ 7) - 2 ^ 7"
    by (rule signed_take_bit_eq_take_bit_shift)
  also have "take_bit (Suc 7) (k + 2 ^ 7) = (k + 2 ^ 7) mod 2 ^ Suc 7"
    by (rule take_bit_eq_mod)
  also have "(k + 2 ^ 7) mod 2 ^ Suc 7 = k - 128"
    using mod_256_high [OF assms] by simp
  finally show ?thesis
    by simp
qed

lemma char_to_size_t_signed_high:
  assumes "128 \<le> (of_char c :: nat)"
  shows "char_to_size_t True c = of_nat (of_char c) - 256"
proof -
  have "int (of_char c) < 256"
    using nat_of_char_less_256 [of c] by simp
  moreover from assms have "128 \<le> int (of_char c)"
    by simp
  ultimately have "signed_take_bit 7 (int (of_char c)) = int (of_char c) - 256"
    by (intro signed_take_bit_high)
  then show ?thesis
    by (simp add: char_to_size_t_def signed_of_nat)
qed

lemma char_to_size_t_eq:
  "char_to_size_t char_signed c =
     (if char_signed \<and> 128 \<le> (of_char c :: nat) then of_nat (of_char c) - 256
      else of_nat (of_char c))"
proof (cases "char_signed \<and> 128 \<le> (of_char c :: nat)")
  case True
  then show ?thesis
    by (simp add: char_to_size_t_signed_high)
next
  case False
  then have "char_signed \<Longrightarrow> of_char c < (128 :: nat)"
    by auto
  then have "char_to_size_t char_signed c = of_nat (of_char c)"
    by (cases char_signed) (simp_all add: char_to_size_t_ascii char_to_size_t_unsigned)
  with False show ?thesis
    by simp
qed

lemma unat_of_nat_minus_256:
  assumes "128 \<le> n" and "n < 256"
  shows "unat (of_nat n - 256 :: size_t) = 2 ^ 64 - 256 + n"
proof -
  define N :: nat where "N = 18446744073709551360 + n"
  have eq: "(of_nat n - 256 :: size_t) = of_nat N"
    by (simp add: N_def)
  have "N < 2 ^ 64"
    using assms(2) by (simp add: N_def)
  moreover have "unat (of_nat N :: size_t) = N mod 2 ^ LENGTH(64)"
    by (rule unat_of_nat)
  ultimately have "unat (of_nat N :: size_t) = N"
    by simp
  then have "unat (of_nat n - 256 :: size_t) = N"
    by (simp only: eq)
  then show ?thesis
    by (simp only: N_def) simp
qed

lemma unat_char_to_size_t:
  "unat (char_to_size_t char_signed c) =
     (if char_signed \<and> 128 \<le> (of_char c :: nat) then 2 ^ 64 - 256 + of_char c
      else of_char c)"
proof -
  define n :: nat where "n = of_char c"
  have lt: "n < 256"
    unfolding n_def by (rule nat_of_char_less_256)
  then have "n < 2 ^ 64"
    by simp
  moreover have "unat (of_nat n :: size_t) = n mod 2 ^ LENGTH(64)"
    by (rule unat_of_nat)
  ultimately have small: "unat (of_nat n :: size_t) = n"
    by simp
  have high: "unat (of_nat n - 256 :: size_t) = 2 ^ 64 - 256 + n" if "128 \<le> n"
    using that lt by (rule unat_of_nat_minus_256)
  have eq: "char_to_size_t char_signed c =
     (if char_signed \<and> 128 \<le> n then of_nat n - 256 else of_nat n)"
    unfolding n_def by (rule char_to_size_t_eq)
  have "unat (char_to_size_t char_signed c) =
     (if char_signed \<and> 128 \<le> n then 2 ^ 64 - 256 + n else n)"
  proof (cases "char_signed \<and> 128 \<le> n")
    case True
    have "char_to_size_t char_signed c = of_nat n - 256"
      by (rule trans [OF eq if_P [OF True]])
    then have "unat (char_to_size_t char_signed c) = 2 ^ 64 - 256 + n"
      using high [OF conjunct2 [OF True]] by (simp only:)
    also have "2 ^ 64 - 256 + n = (if char_signed \<and> 128 \<le> n then 2 ^ 64 - 256 + n else n)"
      by (rule if_P [OF True, symmetric])
    finally show ?thesis .
  next
    case False
    have "char_to_size_t char_signed c = of_nat n"
      by (rule trans [OF eq if_not_P [OF False]])
    then have "unat (char_to_size_t char_signed c) = n"
      using small by (simp only:)
    also have "n = (if char_signed \<and> 128 \<le> n then 2 ^ 64 - 256 + n else n)"
      by (rule if_not_P [OF False, symmetric])
    finally show ?thesis .
  qed
  then show ?thesis
    by (simp only: n_def)
qed

section \<open>The bit array and the setters\<close>

lemma length_vector_resize: "length (vector_resize n v) = n"
  by (simp add: vector_resize_def)

lemma nth_vector_resize:
  "i < n \<Longrightarrow> vector_resize n v ! i = (if i < length v then v ! i else False)"
  by (simp add: vector_resize_def nth_append)

lemma vector_resize_Nil: "vector_resize n [] = replicate n False"
  by (simp add: vector_resize_def)

lemma SetLog2NumBits_valid:
  assumes "log2_num_bits \<le> 33"
  shows "SetLog2NumBits log2_num_bits bf =
    (True, bf\<lparr>filter_' := vector_resize (2 ^ unat log2_num_bits) (filter_' bf),
            parameter_error_flags_' := parameter_error_flags_' bf AND NOT kHasLog2NumBitsError\<rparr>)"
proof -
  from assms have "\<not> 33 < log2_num_bits"
    by (simp add: not_less)
  moreover from assms have "unat (2 ^ unat log2_num_bits :: size_t) = 2 ^ unat log2_num_bits"
    by (intro unat_pow2) (simp add: word_le_nat_alt)
  ultimately show ?thesis
    by (simp add: SetLog2NumBits_def ClearParameterError_def)
qed

lemma SetLog2NumBits_clamped:
  assumes "33 < log2_num_bits"
  shows "SetLog2NumBits log2_num_bits bf =
    (False, bf\<lparr>filter_' := vector_resize (2 ^ 33) (filter_' bf),
            parameter_error_flags_' := parameter_error_flags_' bf OR kHasLog2NumBitsError\<rparr>)"
  using assms
  by (simp add: SetLog2NumBits_def)

lemma length_filter_SetLog2NumBits:
  "length (filter_' (snd (SetLog2NumBits e bf))) = (if 33 < e then 2 ^ 33 else 2 ^ unat e)"
  by (simp add: SetLog2NumBits_valid SetLog2NumBits_clamped length_vector_resize not_less)

lemma num_hashes_SetLog2NumBits:
  "num_hashes_' (snd (SetLog2NumBits e bf)) = num_hashes_' bf"
  by (simp add: SetLog2NumBits_def ClearParameterError_def)

lemma num_hashes_SetNumHashes:
  "num_hashes_' (snd (SetNumHashes k bf)) = (if k < 1 then 1 else k)"
  by (simp add: SetNumHashes_def ClearParameterError_def)

lemma filter_SetNumHashes: "filter_' (snd (SetNumHashes k bf)) = filter_' bf"
  by (simp add: SetNumHashes_def ClearParameterError_def)

lemma NumBits_pow2:
  assumes "length (filter_' bf) = 2 ^ e"
  shows "NumBits bf = 2 ^ e"
  using assms by (simp add: NumBits_def)

section \<open>The class invariant\<close>

lemma class_invariantE:
  assumes "class_invariant bf"
  obtains e where "e \<le> 33" and "length (filter_' bf) = 2 ^ e"
    and "NumBits bf - 1 = mask e" and "unat (NumBits bf) = 2 ^ e"
proof -
  from assms obtain e where e: "e \<le> 33" "length (filter_' bf) = 2 ^ e"
    by (auto simp: class_invariant_def)
  from e(2) have "NumBits bf - 1 = mask e"
    by (simp add: NumBits_def mask_eq_exp_minus_1)
  moreover from e have "unat (NumBits bf) = 2 ^ e"
    by (simp add: NumBits_def unat_pow2)
  ultimately show thesis
    using e that by simp
qed

lemma unat_ModNumBits:
  assumes "class_invariant bf"
  shows "unat (ModNumBits bf x) = unat x mod length (filter_' bf)"
  using assms
  by (elim class_invariantE) (simp add: ModNumBits_def Let_def unat_and_mask_mod)

lemma class_invariant_SetLog2NumBits:
  assumes "1 \<le> num_hashes_' bf"
  shows "class_invariant (snd (SetLog2NumBits e bf))"
proof -
  have "\<exists>n \<in> {0..33}. length (filter_' (snd (SetLog2NumBits e bf))) = 2 ^ n"
  proof (cases "33 < e")
    case True
    then show ?thesis
      by (intro bexI [of _ 33]) (simp_all add: length_filter_SetLog2NumBits)
  next
    case False
    then have "unat e \<le> 33"
      by (simp add: word_le_nat_alt not_less)
    with False show ?thesis
      by (auto simp: length_filter_SetLog2NumBits)
  qed
  with assms show ?thesis
    by (simp add: class_invariant_def num_hashes_SetLog2NumBits)
qed

lemma class_invariant_SetNumHashes:
  assumes "\<exists>n \<in> {0..33}. length (filter_' bf) = 2 ^ n"
  shows "class_invariant (snd (SetNumHashes k bf))"
proof -
  have "1 \<le> (if k < 1 then 1 else k)"
    by (simp add: word_le_nat_alt Suc_le_eq unat_gt_0)
  with assms show ?thesis
    by (simp only: class_invariant_def num_hashes_SetNumHashes filter_SetNumHashes simp_thms)
qed

lemma class_invariant_BloomFilter2: "class_invariant (BloomFilter2 e k)"
proof -
  have "class_invariant (snd (SetLog2NumBits e (member_init 1)))"
    by (rule class_invariant_SetLog2NumBits) (simp add: member_init_def)
  then have "\<exists>n \<in> {0..33}. length (filter_' (snd (SetLog2NumBits e (member_init 0)))) = 2 ^ n"
    by (simp add: class_invariant_def length_filter_SetLog2NumBits)
  then show ?thesis
    unfolding BloomFilter2_def by (rule class_invariant_SetNumHashes)
qed

lemma class_invariant_BloomFilter0: "class_invariant BloomFilter0"
  unfolding BloomFilter0_def BloomFilter1_def by (rule class_invariant_BloomFilter2)

lemma filter_BloomFilter2:
  "filter_' (BloomFilter2 e k) = vector_resize (if 33 < e then 2 ^ 33 else 2 ^ unat e) []"
proof (cases "33 < e")
  case True
  then show ?thesis
    by (simp add: BloomFilter2_def filter_SetNumHashes SetLog2NumBits_clamped member_init_def)
next
  case False
  then have "e \<le> 33" by (simp add: not_less)
  with False show ?thesis
    by (simp add: BloomFilter2_def filter_SetNumHashes SetLog2NumBits_valid member_init_def)
qed

lemma num_hashes_BloomFilter2: "num_hashes_' (BloomFilter2 e k) = (if k < 1 then 1 else k)"
  by (simp add: BloomFilter2_def num_hashes_SetNumHashes)

lemma flags_BloomFilter2_clamped:
  assumes "33 < e" and "1 \<le> k"
  shows "parameter_error_flags_' (BloomFilter2 e k) = kHasLog2NumBitsError"
proof -
  from assms(2) have "\<not> k < 1"
    by auto
  then show ?thesis
    using assms(1)
    by (simp add: BloomFilter2_def SetLog2NumBits_clamped SetNumHashes_def
        ClearParameterError_def member_init_def kHasLog2NumBitsError_def kHasNumHashesError_def)
qed

lemma NumBits_BloomFilter2_clamped:
  assumes "33 < e"
  shows "unat (NumBits (BloomFilter2 e k)) = 2 ^ 33"
proof -
  have "length (filter_' (BloomFilter2 e k)) = 2 ^ 33"
    using assms by (simp add: filter_BloomFilter2 length_vector_resize)
  then have "NumBits (BloomFilter2 e k) = 2 ^ 33"
    by (rule NumBits_pow2)
  then show ?thesis
    by simp
qed

text \<open>The constructed filter does not depend on the indeterminate \<open>num_hashes_\<close>.\<close>

lemma BloomFilter2_indeterminate:
  "snd (SetNumHashes num_hashes (snd (SetLog2NumBits num_bits (member_init u)))) =
     BloomFilter2 num_bits num_hashes"
  by (simp add: BloomFilter2_def SetNumHashes_def SetLog2NumBits_def ClearParameterError_def
      member_init_def)

text \<open>Every member function that changes the filter keeps the invariant.\<close>

lemma class_invariant_ClearParameterError:
  "class_invariant (ClearParameterError flag bf) \<longleftrightarrow> class_invariant bf"
  by (simp add: class_invariant_def ClearParameterError_def)

lemma class_invariant_setters:
  assumes "class_invariant bf"
  shows "class_invariant (snd (SetLog2NumBits e bf))"
    and "class_invariant (snd (SetNumHashes k bf))"
    and "SetOptimalNumHashes_with optimum m bf = Some (r, bf') \<Longrightarrow> class_invariant bf'"
proof -
  from assms have k: "1 \<le> num_hashes_' bf" and n: "\<exists>n \<in> {0..33}. length (filter_' bf) = 2 ^ n"
    by (simp_all add: class_invariant_def)
  from k show "class_invariant (snd (SetLog2NumBits e bf))"
    by (rule class_invariant_SetLog2NumBits)
  from n show set: "class_invariant (snd (SetNumHashes k bf))" for k
    by (rule class_invariant_SetNumHashes)
  assume "SetOptimalNumHashes_with optimum m bf = Some (r, bf')"
  then obtain j where "bf' = ClearParameterError kHasNumHashesError (snd (SetNumHashes j bf))"
    by (auto simp: SetOptimalNumHashes_with_def Let_def split: if_splits option.splits prod.splits)
      (metis snd_conv)
  with set [of j] show "class_invariant bf'"
    by (simp add: class_invariant_ClearParameterError)
qed

lemma class_invariant_SetOptimalNumHashes:
  assumes "class_invariant bf" and "SetOptimalNumHashes m bf = Some (r, bf')"
  shows "class_invariant bf'"
proof -
  from assms(2) obtain j
    where "bf' = ClearParameterError kHasNumHashesError (snd (SetNumHashes j bf))"
    by (auto simp: SetOptimalNumHashes_def Let_def split: if_splits option.splits prod.splits)
      (metis snd_conv)
  with class_invariant_setters(2) [OF assms(1), of j] show ?thesis
    by (simp add: class_invariant_ClearParameterError)
qed

section \<open>The probe sequence\<close>

lemma length_Hash_loop: "length (Hash_loop k m i a b hs) = length hs"
proof (induction k m i a b hs rule: Hash_loop.induct)
  case (1 k m i a b hs)
  show ?case
  proof (cases "i < k")
    case True
    with 1 show ?thesis
      by (subst Hash_loop.simps) (simp add: Let_def)
  next
    case False
    then show ?thesis
      by (subst Hash_loop.simps) simp
  qed
qed

lemma Hash_loop_probe_steps:
  assumes "e \<le> 64" and "length hs = unat k" and "i \<le> k"
  shows "map unat (Hash_loop k (mask e) i a b hs) =
           take (unat i) (map unat hs) @
           probe_steps (2 ^ e) (unat a) (unat b) (unat i) (unat k - unat i)"
  using assms(2,3)
proof (induction k "mask e :: size_t" i a b hs rule: Hash_loop.induct)
  case (1 k i a b hs)
  show ?case
  proof (cases "i < k")
    case True
    define a' where "a' = (a + b) AND mask e"
    define b' where "b' = (b + i) AND mask e"
    have suc: "unat (i + 1) = Suc (unat i)" and less: "unat i < unat k"
      using word_less_unat_Suc [OF True] by simp_all
    have le: "i + 1 \<le> k"
      using True by (rule inc_le)
    have len: "length (hs[unat i := a']) = unat k"
      using "1.prems" by simp
    have IH: "map unat (Hash_loop k (mask e) (i + 1) a' b' (hs[unat i := a'])) =
           take (unat (i + 1)) (map unat (hs[unat i := a'])) @
           probe_steps (2 ^ e) (unat a') (unat b') (unat (i + 1)) (unat k - unat (i + 1))"
      using "1.hyps" [OF True a'_def b'_def len le] .
    have tk: "take (Suc (unat i)) (map unat (hs[unat i := a'])) =
           take (unat i) (map unat hs) @ [unat a']"
      using less "1.prems"(1) by (simp add: take_Suc_conv_app_nth map_update)
    have ua: "unat a' = (unat a + unat b) mod 2 ^ e"
      and ub: "unat b' = (unat b + unat i) mod 2 ^ e"
      using assms(1) by (simp_all add: a'_def b'_def unat_add_and_mask)
    obtain n where n: "unat k - unat i = Suc n"
      using less by (metis Suc_diff_Suc)
    then have n': "unat k - Suc (unat i) = n"
      by simp
    have "Hash_loop k (mask e) i a b hs = Hash_loop k (mask e) (i + 1) a' b' (hs[unat i := a'])"
      using True by (subst Hash_loop.simps) (simp add: a'_def b'_def Let_def)
    then show ?thesis
      by (simp add: IH suc tk n n' ua ub Let_def)
  next
    case False
    with "1.prems" have "i = k" by simp
    then show ?thesis
      using "1.prems" by (subst Hash_loop.simps) simp
  qed
qed

lemma probe_steps_less:
  "0 < N \<Longrightarrow> x \<in> set (probe_steps N a b i n) \<Longrightarrow> x < N"
  by (induction n arbitrary: a b i) (auto simp: Let_def)

lemma length_probe_steps: "length (probe_steps N a b i n) = n"
  by (induction n arbitrary: a b i) (simp_all add: Let_def)

lemma probe_steps_unfold:
  "0 < n \<Longrightarrow> probe_steps N a b i n =
     (let a' = (a + b) mod N; b' = (b + i) mod N in a' # probe_steps N a' b' (i + 1) (n - 1))"
  by (cases n) simp_all

lemma Hash_probe_steps:
  assumes "class_invariant bf"
  shows "map unat (Hash T bf v) =
           enhanced_double_hashing (length (filter_' bf)) (unat (NumHashes bf))
             (unat (FirstHash T bf v)) (unat (SecondHash T bf v))"
proof -
  from assms obtain e where e: "e \<le> 33" "length (filter_' bf) = 2 ^ e"
    "NumBits bf - 1 = mask e"
    by (rule class_invariantE)
  define k where "k = NumHashes bf"
  define a where "a = FirstHash T bf v"
  define b where "b = SecondHash T bf v"
  define hs where "hs = (replicate (unat k) (0 :: size_t))[0 := a]"
  from assms have k1: "1 \<le> k"
    by (simp add: class_invariant_def k_def NumHashes_def)
  then have pos: "0 < unat k"
    by (simp add: word_le_nat_alt)
  have len: "length hs = unat k"
    by (simp add: hs_def)
  from pos have hd: "take (Suc 0) (map unat hs) = [unat a]"
    by (cases "unat k") (simp_all add: hs_def)
  have "e \<le> 64"
    using e(1) by simp
  then have "map unat (Hash_loop k (mask e) 1 a b hs) =
      take (unat (1 :: size_t)) (map unat hs) @
      probe_steps (2 ^ e) (unat a) (unat b) (unat (1 :: size_t)) (unat k - unat (1 :: size_t))"
    using len k1 by (rule Hash_loop_probe_steps)
  moreover have "Hash T bf v = Hash_loop k (mask e) 1 a b hs"
    by (simp add: Hash_def Let_def k_def a_def b_def hs_def e(3))
  ultimately show ?thesis
    by (simp add: hd enhanced_double_hashing_def e(2) k_def a_def b_def)
qed

lemma length_Hash: "length (Hash T bf v) = unat (NumHashes bf)"
  by (simp add: Hash_def Let_def length_Hash_loop)

lemma Hash_in_range:
  assumes "class_invariant bf" and "h \<in> set (Hash T bf v)"
  shows "unat h < length (filter_' bf)"
proof -
  from assms(1) obtain e where e: "length (filter_' bf) = 2 ^ e"
    by (rule class_invariantE)
  then have pos: "0 < length (filter_' bf)"
    by simp
  from assms(2) have "unat h \<in> set (map unat (Hash T bf v))"
    by simp
  then have "unat h = unat (FirstHash T bf v) \<or>
      unat h \<in> set (probe_steps (length (filter_' bf)) (unat (FirstHash T bf v))
        (unat (SecondHash T bf v)) 1 (unat (NumHashes bf) - 1))"
    by (simp add: Hash_probe_steps [OF assms(1)] enhanced_double_hashing_def)
  then show ?thesis
  proof
    assume "unat h = unat (FirstHash T bf v)"
    then show ?thesis
      using pos by (simp add: FirstHash_def unat_ModNumBits [OF assms(1)])
  next
    assume "unat h \<in> set (probe_steps (length (filter_' bf)) (unat (FirstHash T bf v))
        (unat (SecondHash T bf v)) 1 (unat (NumHashes bf) - 1))"
    with pos show ?thesis
      by (rule probe_steps_less)
  qed
qed

lemma Hash_cong:
  assumes "length (filter_' bf') = length (filter_' bf)"
    and "num_hashes_' bf' = num_hashes_' bf"
  shows "Hash T bf' v = Hash T bf v"
  using assms
  by (simp add: Hash_def FirstHash_def SecondHash_def ModNumBits_def NumBits_def NumHashes_def)

lemma single_bit_probes:
  assumes "length (filter_' bf) = 1"
  shows "FirstHash T bf v = 0 \<and> SecondHash T bf v = 0"
  using assms by (simp add: FirstHash_def SecondHash_def ModNumBits_def NumBits_def)

section \<open>Insert and Contains\<close>

lemma length_Insert_loop: "length (Insert_loop filt hs) = length filt"
  by (induction hs arbitrary: filt) simp_all

lemma nth_set_True:
  "i < length filt \<Longrightarrow> filt[j := True] ! i \<longleftrightarrow> filt ! i \<or> i = j"
  by (cases "i = j") simp_all

lemma nth_Insert_loop:
  "i < length filt \<Longrightarrow> Insert_loop filt hs ! i \<longleftrightarrow> filt ! i \<or> i \<in> unat ` set hs"
  by (induction hs arbitrary: filt) (auto simp: nth_set_True)

lemma Contains_loop_iff: "Contains_loop filt hs \<longleftrightarrow> (\<forall>h \<in> set hs. filt ! unat h)"
  by (induction hs) simp_all

lemma class_invariant_Insert:
  "class_invariant bf \<Longrightarrow> class_invariant (Insert T bf v)"
  by (simp add: class_invariant_def Insert_def Let_def length_Insert_loop)

lemma Hash_Insert: "Hash T (Insert T bf w) v = Hash T bf v"
  by (rule Hash_cong) (simp_all add: Insert_def Let_def length_Insert_loop)

lemma Contains_Insert_same:
  assumes "class_invariant bf"
  shows "Contains T (Insert T bf v) v"
proof -
  have "filter_' (Insert T bf v) ! unat h" if "h \<in> set (Hash T bf v)" for h
  proof -
    from assms that have "unat h < length (filter_' bf)"
      by (rule Hash_in_range)
    then show ?thesis
      using that by (simp add: Insert_def Let_def nth_Insert_loop)
  qed
  then show ?thesis
    by (simp add: Contains_def Let_def Contains_loop_iff Hash_Insert)
qed

lemma Contains_Insert_mono:
  assumes "class_invariant bf" and "Contains T bf v"
  shows "Contains T (Insert T bf w) v"
proof -
  have "filter_' (Insert T bf w) ! unat h" if "h \<in> set (Hash T bf v)" for h
  proof -
    from assms(1) that have "unat h < length (filter_' bf)"
      by (rule Hash_in_range)
    moreover from assms(2) that have "filter_' bf ! unat h"
      by (simp add: Contains_def Let_def Contains_loop_iff)
    ultimately show ?thesis
      by (simp add: Insert_def Let_def nth_Insert_loop)
  qed
  then show ?thesis
    by (simp add: Contains_def Let_def Contains_loop_iff Hash_Insert)
qed

lemma Contains_fresh:
  assumes "class_invariant bf" and "\<forall>b \<in> set (filter_' bf). \<not> b"
  shows "\<not> Contains T bf v"
proof -
  from assms(1) have "1 \<le> NumHashes bf"
    by (simp add: class_invariant_def NumHashes_def)
  then have "0 < unat (NumHashes bf)"
    by (simp add: word_le_nat_alt)
  then have "Hash T bf v \<noteq> []"
    using length_Hash [of T bf v] by auto
  then obtain h where h: "h \<in> set (Hash T bf v)"
    by (cases "Hash T bf v") auto
  with assms(1) have "unat h < length (filter_' bf)"
    by (rule Hash_in_range)
  then have "filter_' bf ! unat h \<in> set (filter_' bf)"
    by (rule nth_mem)
  with assms(2) have "\<not> filter_' bf ! unat h"
    by blast
  with h show ?thesis
    by (auto simp: Contains_def Let_def Contains_loop_iff)
qed

lemma class_invariant_after_calls:
  "class_invariant bf \<Longrightarrow> class_invariant (foldl (after_call T) bf calls)"
proof (induction calls arbitrary: bf)
  case Nil
  then show ?case by simp
next
  case (Cons c calls)
  from Cons.prems have "class_invariant (after_call T bf c)"
    by (cases c) (simp_all add: class_invariant_Insert)
  then show ?case
    using Cons.IH by simp
qed

lemma Contains_after_calls:
  "class_invariant bf \<Longrightarrow> Contains T bf v \<Longrightarrow> Contains T (foldl (after_call T) bf calls) v"
proof (induction calls arbitrary: bf)
  case Nil
  then show ?case by simp
next
  case (Cons c calls)
  from Cons.prems have "class_invariant (after_call T bf c)"
    and "Contains T (after_call T bf c) v"
    by (cases c; simp add: class_invariant_Insert Contains_Insert_mono)+
  then show ?case
    using Cons.IH by simp
qed

section \<open>The optimal hash count\<close>

lemma double_to_int_floor:
  assumes "0 \<le> x" and "\<lfloor>x\<rfloor> < 2 ^ 31"
  shows "double_to_int x = Some (of_int \<lfloor>x\<rfloor>)"
proof -
  from assms(1) have "0 \<le> \<lfloor>x\<rfloor>"
    by simp
  then have "- (2 ^ 31) \<le> \<lfloor>x\<rfloor>"
    by simp
  with assms show ?thesis
    by (simp add: double_to_int_def Let_def)
qed

lemma double_to_int_overflow:
  assumes "2 ^ 31 \<le> x"
  shows "double_to_int x = None"
proof -
  from assms have "(2 ^ 31 :: int) \<le> \<lfloor>x\<rfloor>"
    by (simp add: le_floor_iff)
  moreover from assms have "0 \<le> x"
    by simp
  ultimately show ?thesis
    by (simp add: double_to_int_def Let_def)
qed

lemma SetNumHashes_of_int:
  assumes "0 \<le> k" and "k < 2 ^ 31"
  shows "SetNumHashes (of_int k) bf =
    (if k = 0 then
       (False, bf\<lparr>num_hashes_' := 1,
          parameter_error_flags_' := parameter_error_flags_' bf OR kHasNumHashesError\<rparr>)
     else
       (True, bf\<lparr>num_hashes_' := of_int k,
          parameter_error_flags_' := parameter_error_flags_' bf AND NOT kHasNumHashesError\<rparr>))"
  using of_int_eq_0 [OF assms]
  by (simp add: SetNumHashes_def ClearParameterError_def)

lemma SetOptimalNumHashes_with_Some:
  assumes "max_num_entries \<noteq> 0"
    and "0 \<le> optimum (unat (NumBits bf)) (unat max_num_entries)"
    and "\<lfloor>optimum (unat (NumBits bf)) (unat max_num_entries)\<rfloor> = k"
    and "k < 2 ^ 31"
  shows "SetOptimalNumHashes_with optimum max_num_entries bf =
    Some (1 \<le> k,
      bf\<lparr>num_hashes_' := of_int (max 1 k),
         parameter_error_flags_' := parameter_error_flags_' bf AND NOT kHasNumHashesError\<rparr>)"
proof -
  from assms(2,3) have k0: "0 \<le> k"
    by auto
  then have lo: "- (2 ^ 31) \<le> k"
    by simp
  from assms(2,3,4) have
    "double_to_int (optimum (unat (NumBits bf)) (unat max_num_entries)) = Some (of_int k)"
    by (simp add: double_to_int_floor)
  moreover have "scast (of_int k :: cxx_int) = (of_int k :: size_t)"
    using lo assms(4) by (rule scast_of_int)
  moreover from k0 have "max 1 k = (if k = 0 then 1 else k)" and "1 \<le> k \<longleftrightarrow> k \<noteq> 0"
    by auto
  ultimately show ?thesis
    using assms(1)
    by (simp add: SetOptimalNumHashes_with_def SetNumHashes_of_int [OF k0 assms(4)]
        ClearParameterError_def or_and_not)
qed

lemma SetOptimalNumHashes_with_zero: "SetOptimalNumHashes_with optimum 0 bf = None"
  by (simp add: SetOptimalNumHashes_with_def)

lemma SetOptimalNumHashes_with_overflow:
  assumes "2 ^ 31 \<le> optimum (unat (NumBits bf)) (unat max_num_entries)"
  shows "SetOptimalNumHashes_with optimum max_num_entries bf = None"
  using double_to_int_overflow [OF assms] by (simp add: SetOptimalNumHashes_with_def)

lemma NumHashes_SetOptimalNumHashes_with:
  assumes "SetOptimalNumHashes_with optimum m bf = Some (r, bf')"
  shows "1 \<le> NumHashes bf'"
proof -
  have "1 \<le> (if k < 1 then 1 else k)" for k :: size_t
    by (simp add: word_le_nat_alt Suc_le_eq unat_gt_0)
  then have "1 \<le> num_hashes_' (ClearParameterError f x)"
    if "SetNumHashes k bf = (r, x)" for f k r x
    using num_hashes_SetNumHashes [of k bf] that by (simp add: ClearParameterError_def)
  with assms show ?thesis
    by (auto simp: SetOptimalNumHashes_with_def NumHashes_def Let_def
        split: if_splits option.splits prod.splits)
qed

lemma SetOptimalNumHashes_eq_with:
  "SetOptimalNumHashes max_num_entries bf =
     SetOptimalNumHashes_with exact_optimum max_num_entries bf"
  by (simp only: SetOptimalNumHashes_def SetOptimalNumHashes_with_def exact_optimum_def)

lemma exact_optimum_nonneg: "0 \<le> exact_optimum n m"
  by (simp add: exact_optimum_def)

lemma SetOptimalNumHashes_Some:
  assumes "max_num_entries \<noteq> 0"
    and "\<lfloor>ln 2 * real (unat (NumBits bf)) / real (unat max_num_entries)\<rfloor> = k"
    and "k < 2 ^ 31"
  shows "SetOptimalNumHashes max_num_entries bf =
    Some (1 \<le> k,
      bf\<lparr>num_hashes_' := of_int (max 1 k),
         parameter_error_flags_' := parameter_error_flags_' bf AND NOT kHasNumHashesError\<rparr>)"
proof -
  have "0 \<le> exact_optimum (unat (NumBits bf)) (unat max_num_entries)"
    by (rule exact_optimum_nonneg)
  moreover from assms(2) have "\<lfloor>exact_optimum (unat (NumBits bf)) (unat max_num_entries)\<rfloor> = k"
    by (simp only: exact_optimum_def)
  ultimately show ?thesis
    unfolding SetOptimalNumHashes_eq_with
    using assms(1) assms(3) by (intro SetOptimalNumHashes_with_Some)
qed

lemma SetOptimalNumHashes_zero: "SetOptimalNumHashes 0 bf = None"
  by (simp only: SetOptimalNumHashes_eq_with SetOptimalNumHashes_with_zero)

lemma SetOptimalNumHashes_overflow:
  assumes "2 ^ 31 \<le> ln 2 * real (unat (NumBits bf)) / real (unat max_num_entries)"
  shows "SetOptimalNumHashes max_num_entries bf = None"
proof -
  from assms have "2 ^ 31 \<le> exact_optimum (unat (NumBits bf)) (unat max_num_entries)"
    by (simp only: exact_optimum_def)
  then show ?thesis
    unfolding SetOptimalNumHashes_eq_with by (rule SetOptimalNumHashes_with_overflow)
qed

lemma NumHashes_SetOptimalNumHashes:
  assumes "SetOptimalNumHashes m bf = Some (r, bf')"
  shows "1 \<le> NumHashes bf'"
  using assms unfolding SetOptimalNumHashes_eq_with by (rule NumHashes_SetOptimalNumHashes_with)

lemma floor_ln2: "\<lfloor>ln 2 :: real\<rfloor> = 0"
proof -
  have "0 \<le> ln (2::real)"
    by simp
  moreover have "ln (2::real) < 1"
    by (rule ln_2_less_1)
  ultimately show ?thesis
    by (simp add: floor_eq_iff)
qed

lemma floor_small_optimum:
  assumes "0 < m" and "n \<le> m"
  shows "\<lfloor>exact_optimum n m\<rfloor> = 0"
proof -
  have "ln (2 :: real) * real n < real m"
  proof (cases "n = 0")
    case True
    with assms(1) show ?thesis by simp
  next
    case False
    then have "ln 2 * real n < 1 * real n"
      using ln_2_less_1 by (intro mult_strict_right_mono) simp_all
    also have "\<dots> \<le> real m"
      using assms(2) by simp
    finally show ?thesis .
  qed
  with assms(1) have "exact_optimum n m < 1"
    by (simp add: exact_optimum_def)
  with exact_optimum_nonneg [of n m] show ?thesis
    by (simp add: floor_eq_iff)
qed

lemma ln_2_ge_half: "1 / 2 \<le> ln (2 :: real)"
proof -
  have "exp (1 / 2 :: real) \<le> 2"
  proof (rule ccontr)
    assume "\<not> exp (1 / 2 :: real) \<le> 2"
    then have "2 < exp (1 / 2 :: real)"
      by simp
    then have "2 * 2 < exp (1 / 2 :: real) * exp (1 / 2)"
      by (intro mult_strict_mono) simp_all
    also have "\<dots> = exp 1"
      by (simp add: exp_add [symmetric])
    finally show False
      using exp_le by simp
  qed
  then have "ln (exp (1 / 2 :: real)) \<le> ln 2"
    by (subst ln_le_cancel_iff) simp_all
  then show ?thesis
    by simp
qed

text \<open>
  Where the conversion to \<open>int\<close> is undefined: zero expected entries, and
  an optimum of \<open>2 ^ 31\<close> or more, as for \<open>2 ^ 32\<close> bits and one expected
  entry.
\<close>

lemma SetOptimalNumHashes_undefined_example:
  "SetOptimalNumHashes 1 (BloomFilter1 32) = None"
proof (rule SetOptimalNumHashes_overflow)
  have "length (filter_' (BloomFilter1 32)) = 2 ^ 32"
    by (simp add: BloomFilter1_def filter_BloomFilter2 length_vector_resize)
  then have "NumBits (BloomFilter1 32) = 2 ^ 32"
    by (rule NumBits_pow2)
  then have "unat (NumBits (BloomFilter1 32)) = 2 ^ 32"
    by simp
  then have "ln 2 * real (unat (NumBits (BloomFilter1 32))) / real (unat (1 :: size_t)) =
      ln 2 * 2 ^ 32"
    by simp
  moreover have "(2 :: real) ^ 31 \<le> ln 2 * 2 ^ 32"
    using ln_2_ge_half by simp
  ultimately show
    "2 ^ 31 \<le> ln 2 * real (unat (NumBits (BloomFilter1 32))) / real (unat (1 :: size_t))"
    by simp
qed

section \<open>No false negatives\<close>

text \<open>
  C1: no false negatives. Take a filter that satisfies the class invariant (any
  constructed filter does), any sequence of \<open>Insert\<close> and \<open>Contains\<close>
  calls on it, then \<open>Insert(v)\<close>, then any further sequence of
  \<open>Insert\<close> and \<open>Contains\<close> calls: \<open>Contains(v)\<close> then returns true,
  for every element type and every value \<open>v\<close>.
\<close>

theorem no_false_negatives:
  assumes "class_invariant bf"
  shows "Contains T (foldl (after_call T) (Insert T (foldl (after_call T) bf before) v) later) v"
proof -
  from assms have inv: "class_invariant (foldl (after_call T) bf before)"
    by (rule class_invariant_after_calls)
  then have "class_invariant (Insert T (foldl (after_call T) bf before) v)"
    by (rule class_invariant_Insert)
  moreover from inv have "Contains T (Insert T (foldl (after_call T) bf before) v) v"
    by (rule Contains_Insert_same)
  ultimately show ?thesis
    by (rule Contains_after_calls)
qed

theorem no_false_negatives_witness:
  "class_invariant BloomFilter0 \<and>
   Contains example_string
     (foldl (after_call example_string)
        (Insert example_string
           (foldl (after_call example_string) BloomFilter0
              [Call_Insert ''b'', Call_Contains ''z''])
           ''a'')
        [Call_Insert ''c'', Call_Contains ''b''])
     ''a''"
  using no_false_negatives [OF class_invariant_BloomFilter0] class_invariant_BloomFilter0
  by (rule conjI [rotated])

section \<open>Enhanced double hashing\<close>

text \<open>
  C2: enhanced double hashing. On a filter of \<open>N = 2 ^ e\<close> bits with hash
  count \<open>k\<close>, \<open>Hash(v)\<close> is the sequence of \<open>k\<close> positions
  \<open>hashes[0] = FirstHash(v)\<close> and, for \<open>i = 1 .. k - 1\<close>,
  \<open>a \<leftarrow> (a + b) mod N\<close>, \<open>b \<leftarrow> (b + i) mod N\<close>, \<open>hashes[i] = a\<close>,
  with \<open>a\<close> starting at \<open>FirstHash(v)\<close> and \<open>b\<close> at
  \<open>SecondHash(v)\<close>; the reduction modulo \<open>N\<close> is the bitwise AND with
  \<open>N - 1\<close>.
\<close>

theorem Hash_enhanced_double_hashing:
  assumes "class_invariant bf"
  shows "map unat (Hash T bf v) =
       enhanced_double_hashing (length (filter_' bf)) (unat (NumHashes bf))
         (unat (FirstHash T bf v)) (unat (SecondHash T bf v)) \<and>
     length (Hash T bf v) = unat (NumHashes bf) \<and>
     ModNumBits bf x = x AND (NumBits bf - 1) \<and>
     unat (ModNumBits bf x) = unat x mod length (filter_' bf) \<and>
     unat (NumBits bf) = length (filter_' bf)"
proof -
  from assms obtain e where "length (filter_' bf) = 2 ^ e" and "unat (NumBits bf) = 2 ^ e"
    by (rule class_invariantE)
  then have "unat (NumBits bf) = length (filter_' bf)"
    by simp
  then show ?thesis
    using assms
    by (simp add: Hash_probe_steps length_Hash unat_ModNumBits) (simp add: ModNumBits_def)
qed

theorem Hash_enhanced_double_hashing_witness:
  "class_invariant (BloomFilter2 3 5) \<and>
   map unat (Hash example_string (BloomFilter2 3 5) ''a'') = [1, 6, 4, 4, 7] \<and>
   enhanced_double_hashing 8 5 1 5 = [1, 6, 4, 4, 7]"
proof -
  have inv: "class_invariant (BloomFilter2 3 5)"
    by (rule class_invariant_BloomFilter2)
  have len: "length (filter_' (BloomFilter2 3 5)) = 8"
    by (simp add: filter_BloomFilter2 length_vector_resize)
  have k: "NumHashes (BloomFilter2 3 5) = 5"
    by (simp add: NumHashes_def num_hashes_BloomFilter2)
  have nb: "NumBits (BloomFilter2 3 5) = 8"
    by (simp add: NumBits_def len)
  have h1: "FirstHash example_string (BloomFilter2 3 5) ''a'' = 1"
    by (simp add: FirstHash_def ModNumBits_def nb example_string_def)
  have h2: "SecondHash example_string (BloomFilter2 3 5) ''a'' = 5"
    by (simp add: SecondHash_def ModNumBits_def nb example_string_def Djb2_def kHashDjb2_def
        char_to_size_t_def)
  have spec: "enhanced_double_hashing 8 5 1 5 = [1, 6, 4, 4, 7]"
    by (simp add: enhanced_double_hashing_def probe_steps_unfold Let_def)
  from Hash_enhanced_double_hashing [OF inv, of example_string "''a''"]
  have "map unat (Hash example_string (BloomFilter2 3 5) ''a'') = enhanced_double_hashing 8 5 1 5"
    by (simp add: len k h1 h2)
  with inv spec show ?thesis
    by simp
qed

section \<open>Resizing the bit array\<close>

text \<open>
  Resizing is not a reset. A filter of one bit (exponent 0, one hash function)
  has every probe position at 0, whatever \<open>std::hash\<close> returns
  (\<open>single_bit_probes\<close>); after one \<open>Insert\<close> its bit is set. A
  successful \<open>SetLog2NumBits(1)\<close> then gives the two bits true, false, and
  a successful \<open>SetLog2NumBits(0)\<close> leaves the one bit true.
\<close>

theorem SetLog2NumBits_reset_counterexample:
  "(1 :: size_t) \<le> 33 \<and>
   filter_' (Insert example_string (BloomFilter2 0 1) ''a'') = [True] \<and>
   fst (SetLog2NumBits 1 (Insert example_string (BloomFilter2 0 1) ''a'')) \<and>
   filter_' (snd (SetLog2NumBits 1 (Insert example_string (BloomFilter2 0 1) ''a''))) =
     [True, False] \<and>
   filter_' (snd (SetLog2NumBits 1 (Insert example_string (BloomFilter2 0 1) ''a''))) \<noteq>
     replicate (2 ^ 1) False \<and>
   fst (SetLog2NumBits 0 (Insert example_string (BloomFilter2 0 1) ''a'')) \<and>
   filter_' (snd (SetLog2NumBits 0 (Insert example_string (BloomFilter2 0 1) ''a''))) = [True]"
  by code_simp

text \<open>
  C3, as the code has it: after a successful \<open>SetLog2NumBits(e)\<close>
  (\<open>e \<le> 33\<close>) the bit array has exactly \<open>2 ^ e\<close> bits; a bit at a
  position below the old size keeps its value, and a bit at a position at or
  above the old size is false. Every bit is false when no bit was set before
  the call, as in the constructors. The size-error flag is cleared; hash count
  and element count are unchanged.
\<close>

theorem SetLog2NumBits_resize:
  assumes "e \<le> 33"
  shows "fst (SetLog2NumBits e bf) \<and>
     length (filter_' (snd (SetLog2NumBits e bf))) = 2 ^ unat e \<and>
     (\<forall>i < 2 ^ unat e.
        filter_' (snd (SetLog2NumBits e bf)) ! i =
          (if i < length (filter_' bf) then filter_' bf ! i else False)) \<and>
     ((\<forall>b \<in> set (filter_' bf). \<not> b) \<longrightarrow>
        filter_' (snd (SetLog2NumBits e bf)) = replicate (2 ^ unat e) False) \<and>
     filter_' (BloomFilter2 e k) = replicate (2 ^ unat e) False \<and>
     ParameterErrorFlags (snd (SetLog2NumBits e bf)) AND kHasLog2NumBitsError = 0 \<and>
     num_hashes_' (snd (SetLog2NumBits e bf)) = num_hashes_' bf \<and>
     size_' (snd (SetLog2NumBits e bf)) = size_' bf"
proof -
  have eq: "SetLog2NumBits e bf =
      (True, bf\<lparr>filter_' := vector_resize (2 ^ unat e) (filter_' bf),
         parameter_error_flags_' := parameter_error_flags_' bf AND NOT kHasLog2NumBitsError\<rparr>)"
    using assms by (rule SetLog2NumBits_valid)
  have filt: "filter_' (snd (SetLog2NumBits e bf)) = vector_resize (2 ^ unat e) (filter_' bf)"
    by (simp add: eq)
  have nth: "\<forall>i < 2 ^ unat e.
      filter_' (snd (SetLog2NumBits e bf)) ! i =
        (if i < length (filter_' bf) then filter_' bf ! i else False)"
    by (simp add: filt nth_vector_resize)
  have fresh: "filter_' (snd (SetLog2NumBits e bf)) = replicate (2 ^ unat e) False"
    if "\<forall>b \<in> set (filter_' bf). \<not> b"
  proof (rule nth_equalityI)
    show "length (filter_' (snd (SetLog2NumBits e bf))) = length (replicate (2 ^ unat e) False)"
      by (simp add: filt length_vector_resize)
    fix i
    assume "i < length (filter_' (snd (SetLog2NumBits e bf)))"
    then have i: "i < 2 ^ unat e"
      by (simp add: filt length_vector_resize)
    have "\<not> filter_' bf ! i" if "i < length (filter_' bf)"
      using \<open>\<forall>b \<in> set (filter_' bf). \<not> b\<close> nth_mem [OF that] by blast
    with i show "filter_' (snd (SetLog2NumBits e bf)) ! i = replicate (2 ^ unat e) False ! i"
      by (simp add: filt nth_vector_resize)
  qed
  have ctor: "filter_' (BloomFilter2 e k) = replicate (2 ^ unat e) False"
    using assms by (simp add: filter_BloomFilter2 vector_resize_Nil not_less [symmetric])
  show ?thesis
    using nth fresh ctor
    by (simp add: eq length_vector_resize ParameterErrorFlags_def flag_clear)
qed

theorem SetLog2NumBits_resize_witness:
  "(1 :: size_t) \<le> 33 \<and>
   fst (SetLog2NumBits 1 (Insert example_string (BloomFilter2 0 1) ''a'')) \<and>
   length (filter_' (snd (SetLog2NumBits 1 (Insert example_string (BloomFilter2 0 1) ''a'')))) =
     2 \<and>
   filter_' (snd (SetLog2NumBits 1 (Insert example_string (BloomFilter2 0 1) ''a''))) ! 0 =
     filter_' (Insert example_string (BloomFilter2 0 1) ''a'') ! 0 \<and>
   filter_' (snd (SetLog2NumBits 1 (Insert example_string (BloomFilter2 0 1) ''a''))) ! 1 =
     False \<and>
   filter_' (BloomFilter2 1 5) = [False, False]"
proof -
  have valid: "(1 :: size_t) \<le> 33"
    by simp
  have len: "length (filter_' (Insert example_string (BloomFilter2 0 1) ''a'')) = 1"
    by code_simp
  note resize =
    SetLog2NumBits_resize [OF valid, of "Insert example_string (BloomFilter2 0 1) ''a''" 5]
  from resize have "fst (SetLog2NumBits 1 (Insert example_string (BloomFilter2 0 1) ''a''))"
    and "length (filter_' (snd (SetLog2NumBits 1 (Insert example_string (BloomFilter2 0 1) ''a'')))) =
      2 ^ unat (1 :: size_t)"
    and nth: "\<forall>i < 2 ^ unat (1 :: size_t).
      filter_' (snd (SetLog2NumBits 1 (Insert example_string (BloomFilter2 0 1) ''a''))) ! i =
        (if i < length (filter_' (Insert example_string (BloomFilter2 0 1) ''a''))
         then filter_' (Insert example_string (BloomFilter2 0 1) ''a'') ! i else False)"
    and "filter_' (BloomFilter2 1 5) = replicate (2 ^ unat (1 :: size_t)) False"
    by blast+
  moreover from nth have
    "filter_' (snd (SetLog2NumBits 1 (Insert example_string (BloomFilter2 0 1) ''a''))) ! 0 =
       filter_' (Insert example_string (BloomFilter2 0 1) ''a'') ! 0"
    and "filter_' (snd (SetLog2NumBits 1 (Insert example_string (BloomFilter2 0 1) ''a''))) ! 1 =
       False"
    by (simp_all add: len)
  ultimately show ?thesis
    using valid by (simp add: numeral_2_eq_2)
qed

section \<open>The optimal hash count and the error flags\<close>

lemma ln_2_less_three_quarters: "ln (2 :: real) < 3 / 4"
proof -
  have "1 + 3 / 4 + (3 / 4)\<^sup>2 / 2 \<le> exp (3 / 4 :: real)"
    by (rule exp_lower_Taylor_quadratic) simp
  moreover have "(2 :: real) < 1 + 3 / 4 + (3 / 4)\<^sup>2 / 2"
    by (simp add: power2_eq_square)
  ultimately have "2 < exp (3 / 4 :: real)"
    by (rule less_le_trans [rotated])
  then have "ln 2 < ln (exp (3 / 4 :: real))"
    by (subst ln_less_cancel_iff) simp_all
  then show ?thesis
    by simp
qed

lemma floor_optimum_2: "\<lfloor>ln 2 * real (256 :: nat) / real (64 :: nat)\<rfloor> = 2"
proof -
  have "ln 2 * real (256 :: nat) / real (64 :: nat) = 4 * ln 2"
    by simp
  moreover have "2 \<le> 4 * ln (2 :: real)" and "4 * ln (2 :: real) < 3"
    using ln_2_ge_half ln_2_less_three_quarters by simp_all
  ultimately show ?thesis
    by (simp add: floor_eq_iff)
qed

text \<open>
  \<open>SetOptimalNumHashes\<close> clears the hash-count flag only. On a filter
  constructed with exponent 34 (\<open>2 ^ 33\<close> bits, size-error flag set), the
  call with \<open>2 ^ 33\<close> expected entries computes an optimum of \<open>ln 2\<close>,
  below 1: it returns false and sets the hash count to 1, and
  \<open>HasParameterError()\<close> is still true.
\<close>

theorem SetOptimalNumHashes_counterexample:
  "ln 2 * real (unat (NumBits (BloomFilter1 34))) / real (unat (2 ^ 33 :: size_t)) < 1 \<and>
   SetOptimalNumHashes (2 ^ 33) (BloomFilter1 34) \<noteq> None \<and>
   \<not> fst (the (SetOptimalNumHashes (2 ^ 33) (BloomFilter1 34))) \<and>
   NumHashes (snd (the (SetOptimalNumHashes (2 ^ 33) (BloomFilter1 34)))) = 1 \<and>
   HasParameterError (snd (the (SetOptimalNumHashes (2 ^ 33) (BloomFilter1 34))))"
proof -
  have big: "(33 :: size_t) < 34"
    by simp
  have n: "unat (NumBits (BloomFilter1 34)) = 2 ^ 33"
    unfolding BloomFilter1_def using big by (rule NumBits_BloomFilter2_clamped)
  have m: "unat (2 ^ 33 :: size_t) = 2 ^ 33"
    by simp
  have opt: "ln 2 * real (unat (NumBits (BloomFilter1 34))) / real (unat (2 ^ 33 :: size_t)) = ln 2"
    by (simp only: n m) simp
  have flags: "parameter_error_flags_' (BloomFilter1 34) = kHasLog2NumBitsError"
    unfolding BloomFilter1_def using big
    by (rule flags_BloomFilter2_clamped) (simp add: kNumDefaultNumHashes_def)
  have "SetOptimalNumHashes (2 ^ 33) (BloomFilter1 34) =
    Some (1 \<le> (0 :: int),
      (BloomFilter1 34)\<lparr>num_hashes_' := of_int (max 1 0),
         parameter_error_flags_' :=
           parameter_error_flags_' (BloomFilter1 34) AND NOT kHasNumHashesError\<rparr>)"
  proof (rule SetOptimalNumHashes_Some)
    show "(2 ^ 33 :: size_t) \<noteq> 0"
      by simp
    show "\<lfloor>ln 2 * real (unat (NumBits (BloomFilter1 34))) / real (unat (2 ^ 33 :: size_t))\<rfloor> = 0"
      by (simp only: opt floor_ln2)
    show "(0 :: int) < 2 ^ 31"
      by simp
  qed
  moreover
  have "ln 2 * real (unat (NumBits (BloomFilter1 34))) / real (unat (2 ^ 33 :: size_t)) < 1"
    by (simp only: opt ln_2_less_1)
  ultimately show ?thesis
    by (simp add: flags NumHashes_def HasParameterError_def kHasLog2NumBitsError_def
        kHasNumHashesError_def)
qed

text \<open>
  C4, as the code has it. Let \<open>k\<close> be the floor of
  \<open>ln 2 * N / max_num_entries\<close>, with \<open>max_num_entries\<close> not zero and
  the quotient below \<open>2 ^ 31\<close>. Then \<open>SetOptimalNumHashes\<close> sets the hash
  count to \<open>max 1 k\<close>, returns true exactly when \<open>1 \<le> k\<close>, and clears
  the hash-count error flag and no other: the hash count is 1 when
  \<open>k < 1\<close>, and \<open>HasParameterError()\<close> is true afterwards exactly when
  another flag was set before the call. Bit array and element count are
  unchanged.
\<close>

theorem SetOptimalNumHashes_amended:
  fixes max_num_entries :: size_t and bf :: BloomFilter
  defines "k \<equiv> \<lfloor>ln 2 * real (unat (NumBits bf)) / real (unat max_num_entries)\<rfloor>"
  defines "bf' \<equiv> bf\<lparr>num_hashes_' := of_int (max 1 k),
      parameter_error_flags_' := parameter_error_flags_' bf AND NOT kHasNumHashesError\<rparr>"
  assumes "max_num_entries \<noteq> 0"
    and "ln 2 * real (unat (NumBits bf)) / real (unat max_num_entries) < 2 ^ 31"
  shows "SetOptimalNumHashes max_num_entries bf = Some (1 \<le> k, bf') \<and>
     NumHashes bf' = of_int (max 1 k) \<and>
     (k < 1 \<longrightarrow> NumHashes bf' = 1) \<and>
     ParameterErrorFlags bf' AND kHasNumHashesError = 0 \<and>
     ParameterErrorFlags bf' = ParameterErrorFlags bf AND NOT kHasNumHashesError \<and>
     (HasParameterError bf' \<longleftrightarrow> ParameterErrorFlags bf AND NOT kHasNumHashesError \<noteq> 0) \<and>
     filter_' bf' = filter_' bf \<and> size_' bf' = size_' bf"
proof -
  have k0: "0 \<le> k"
    unfolding k_def
    using exact_optimum_nonneg [of "unat (NumBits bf)" "unat max_num_entries"]
    by (simp only: exact_optimum_def zero_le_floor)
  from assms(4) have "k < 2 ^ 31"
    unfolding k_def by (simp add: floor_less_iff)
  with assms(3) have "SetOptimalNumHashes max_num_entries bf = Some (1 \<le> k, bf')"
    unfolding bf'_def by (intro SetOptimalNumHashes_Some) (simp_all add: k_def)
  moreover from k0 have "k < 1 \<longrightarrow> NumHashes bf' = 1"
    by (auto simp: bf'_def NumHashes_def)
  ultimately show ?thesis
    by (simp add: bf'_def NumHashes_def ParameterErrorFlags_def HasParameterError_def flag_clear)
qed

theorem SetOptimalNumHashes_amended_witness:
  "(64 :: size_t) \<noteq> 0 \<and>
   ln 2 * real (unat (NumBits BloomFilter0)) / real (unat (64 :: size_t)) < 2 ^ 31 \<and>
   \<lfloor>ln 2 * real (unat (NumBits BloomFilter0)) / real (unat (64 :: size_t))\<rfloor> = 2 \<and>
   SetOptimalNumHashes 64 BloomFilter0 \<noteq> None \<and>
   fst (the (SetOptimalNumHashes 64 BloomFilter0)) \<and>
   NumHashes (snd (the (SetOptimalNumHashes 64 BloomFilter0))) = 2 \<and>
   \<not> HasParameterError (snd (the (SetOptimalNumHashes 64 BloomFilter0))) \<and>
   (8192 :: size_t) \<noteq> 0 \<and>
   ln 2 * real (unat (NumBits (BloomFilter1 2))) / real (unat (8192 :: size_t)) < 2 ^ 31 \<and>
   \<lfloor>ln 2 * real (unat (NumBits (BloomFilter1 2))) / real (unat (8192 :: size_t))\<rfloor> = 0 \<and>
   SetOptimalNumHashes 8192 (BloomFilter1 2) \<noteq> None \<and>
   \<not> fst (the (SetOptimalNumHashes 8192 (BloomFilter1 2))) \<and>
   NumHashes (snd (the (SetOptimalNumHashes 8192 (BloomFilter1 2)))) = 1 \<and>
   \<not> HasParameterError (snd (the (SetOptimalNumHashes 8192 (BloomFilter1 2))))"
proof -
  have n0: "unat (NumBits BloomFilter0) = 256" and flags0: "ParameterErrorFlags BloomFilter0 = 0"
    by code_simp+
  have k0: "\<lfloor>ln 2 * real (unat (NumBits BloomFilter0)) / real (unat (64 :: size_t))\<rfloor> = 2"
    using floor_optimum_2 by (simp add: n0)
  then have small0:
    "ln 2 * real (unat (NumBits BloomFilter0)) / real (unat (64 :: size_t)) < 2 ^ 31"
    by (simp add: floor_eq_iff)
  have m0: "(64 :: size_t) \<noteq> 0"
    by simp
  note unclamped = SetOptimalNumHashes_amended
    [where max_num_entries = 64 and bf = BloomFilter0, OF m0 small0]
  from unclamped have "SetOptimalNumHashes 64 BloomFilter0 \<noteq> None"
    and "fst (the (SetOptimalNumHashes 64 BloomFilter0))"
    and "NumHashes (snd (the (SetOptimalNumHashes 64 BloomFilter0))) = 2"
    and "\<not> HasParameterError (snd (the (SetOptimalNumHashes 64 BloomFilter0)))"
    by (simp_all only: k0 flags0) simp_all
  note first = this m0 small0 k0
  have n: "unat (NumBits (BloomFilter1 2)) = 4" and flags: "ParameterErrorFlags (BloomFilter1 2) = 0"
    by code_simp+
  have "\<lfloor>exact_optimum (unat (NumBits (BloomFilter1 2))) (unat (8192 :: size_t))\<rfloor> = 0"
    by (rule floor_small_optimum) (simp_all add: n)
  then have k: "\<lfloor>ln 2 * real (unat (NumBits (BloomFilter1 2))) / real (unat (8192 :: size_t))\<rfloor> = 0"
    by (simp only: exact_optimum_def)
  then have small:
    "ln 2 * real (unat (NumBits (BloomFilter1 2))) / real (unat (8192 :: size_t)) < 2 ^ 31"
    by (simp add: floor_eq_iff)
  have m: "(8192 :: size_t) \<noteq> 0"
    by simp
  note clamped = SetOptimalNumHashes_amended
    [where max_num_entries = 8192 and bf = "BloomFilter1 2", OF m small]
  from clamped have "SetOptimalNumHashes 8192 (BloomFilter1 2) \<noteq> None"
    and "\<not> fst (the (SetOptimalNumHashes 8192 (BloomFilter1 2)))"
    and "NumHashes (snd (the (SetOptimalNumHashes 8192 (BloomFilter1 2)))) = 1"
    and "\<not> HasParameterError (snd (the (SetOptimalNumHashes 8192 (BloomFilter1 2))))"
    by (simp_all only: k flags) simp_all
  with first m small k show ?thesis
    by blast
qed

section \<open>The clamp of the size exponent\<close>

text \<open>
  C5: the clamp of the size exponent. \<open>SetLog2NumBits(e)\<close> with
  \<open>e > 33\<close> makes the bit array exactly \<open>2 ^ 33\<close> bits long, sets the
  size-error flag and returns false; with \<open>e \<le> 33\<close> it makes the array
  \<open>2 ^ e\<close> bits long, clears the size-error flag and returns true. A filter
  constructed with an exponent above 33 satisfies the class invariant with
  \<open>2 ^ 33\<close> bits and the error raised: it contains nothing, every probe
  position lies inside the array, and after \<open>Insert(v)\<close> it counts one
  element and \<open>Contains(v)\<close> is true.
\<close>

theorem SetLog2NumBits_clamp:
  "(33 < e \<longrightarrow>
      SetLog2NumBits e bf =
        (False, bf\<lparr>filter_' := vector_resize (2 ^ 33) (filter_' bf),
           parameter_error_flags_' := parameter_error_flags_' bf OR kHasLog2NumBitsError\<rparr>) \<and>
      length (filter_' (snd (SetLog2NumBits e bf))) = 2 ^ 33 \<and>
      NumBits (snd (SetLog2NumBits e bf)) = 2 ^ 33 \<and>
      ParameterErrorFlags (snd (SetLog2NumBits e bf)) AND kHasLog2NumBitsError =
        kHasLog2NumBitsError \<and>
      HasParameterError (snd (SetLog2NumBits e bf))) \<and>
   (e \<le> 33 \<longrightarrow>
      SetLog2NumBits e bf =
        (True, bf\<lparr>filter_' := vector_resize (2 ^ unat e) (filter_' bf),
           parameter_error_flags_' := parameter_error_flags_' bf AND NOT kHasLog2NumBitsError\<rparr>) \<and>
      length (filter_' (snd (SetLog2NumBits e bf))) = 2 ^ unat e \<and>
      NumBits (snd (SetLog2NumBits e bf)) = 2 ^ unat e \<and>
      ParameterErrorFlags (snd (SetLog2NumBits e bf)) AND kHasLog2NumBitsError = 0) \<and>
   (33 < e \<longrightarrow>
      class_invariant (BloomFilter2 e k) \<and>
      NumBits (BloomFilter2 e k) = 2 ^ 33 \<and>
      HasParameterError (BloomFilter2 e k) \<and>
      \<not> Contains T (BloomFilter2 e k) v \<and>
      (\<forall>h \<in> set (Hash T (BloomFilter2 e k) v). unat h < 2 ^ 33) \<and>
      NumBits (Insert T (BloomFilter2 e k) v) = 2 ^ 33 \<and>
      Size (Insert T (BloomFilter2 e k) v) = 1 \<and>
      Contains T (Insert T (BloomFilter2 e k) v) v)"
proof (intro conjI impI)
  assume big: "33 < e"
  show "SetLog2NumBits e bf =
        (False, bf\<lparr>filter_' := vector_resize (2 ^ 33) (filter_' bf),
           parameter_error_flags_' := parameter_error_flags_' bf OR kHasLog2NumBitsError\<rparr>)"
    using big by (rule SetLog2NumBits_clamped)
  show len: "length (filter_' (snd (SetLog2NumBits e bf))) = 2 ^ 33"
    using big by (simp add: length_filter_SetLog2NumBits)
  show "NumBits (snd (SetLog2NumBits e bf)) = 2 ^ 33"
    using len by (rule NumBits_pow2)
  show "ParameterErrorFlags (snd (SetLog2NumBits e bf)) AND kHasLog2NumBitsError =
        kHasLog2NumBitsError"
    using big by (simp add: SetLog2NumBits_clamped ParameterErrorFlags_def flag_set)
  show "HasParameterError (snd (SetLog2NumBits e bf))"
    using big by (simp add: SetLog2NumBits_clamped HasParameterError_def flag_or_nonzero)
next
  assume small: "e \<le> 33"
  show "SetLog2NumBits e bf =
        (True, bf\<lparr>filter_' := vector_resize (2 ^ unat e) (filter_' bf),
           parameter_error_flags_' := parameter_error_flags_' bf AND NOT kHasLog2NumBitsError\<rparr>)"
    using small by (rule SetLog2NumBits_valid)
  show len: "length (filter_' (snd (SetLog2NumBits e bf))) = 2 ^ unat e"
    using small by (simp add: length_filter_SetLog2NumBits not_less [symmetric])
  show "NumBits (snd (SetLog2NumBits e bf)) = 2 ^ unat e"
    using len by (rule NumBits_pow2)
  show "ParameterErrorFlags (snd (SetLog2NumBits e bf)) AND kHasLog2NumBitsError = 0"
    using small by (simp add: SetLog2NumBits_valid ParameterErrorFlags_def flag_clear)
next
  assume big: "33 < e"
  show inv: "class_invariant (BloomFilter2 e k)"
    by (rule class_invariant_BloomFilter2)
  have filt: "filter_' (BloomFilter2 e k) = replicate (2 ^ 33) False"
    using big by (simp add: filter_BloomFilter2 vector_resize_Nil)
  then have len: "length (filter_' (BloomFilter2 e k)) = 2 ^ 33"
    by simp
  then show "NumBits (BloomFilter2 e k) = 2 ^ 33"
    by (rule NumBits_pow2)
  show "HasParameterError (BloomFilter2 e k)"
    using big
    by (simp add: BloomFilter2_def SetLog2NumBits_clamped SetNumHashes_def HasParameterError_def
        ClearParameterError_def member_init_def kHasLog2NumBitsError_def kHasNumHashesError_def)
  from filt have "\<forall>b \<in> set (filter_' (BloomFilter2 e k)). \<not> b"
    by simp
  with inv show "\<not> Contains T (BloomFilter2 e k) v"
    by (rule Contains_fresh)
  show "\<forall>h \<in> set (Hash T (BloomFilter2 e k) v). unat h < 2 ^ 33"
    using Hash_in_range [OF inv, of _ T v] len by simp
  have "length (filter_' (Insert T (BloomFilter2 e k) v)) = 2 ^ 33"
    using len by (simp add: Insert_def Let_def length_Insert_loop)
  then show "NumBits (Insert T (BloomFilter2 e k) v) = 2 ^ 33"
    by (rule NumBits_pow2)
  show "Size (Insert T (BloomFilter2 e k) v) = 1"
    by (simp add: Size_def Insert_def Let_def BloomFilter2_def SetNumHashes_def
        SetLog2NumBits_def ClearParameterError_def member_init_def)
  from inv show "Contains T (Insert T (BloomFilter2 e k) v) v"
    by (rule Contains_Insert_same)
qed

theorem SetLog2NumBits_clamp_witness:
  "(33 :: size_t) < 34 \<and>
   \<not> fst (SetLog2NumBits 34 BloomFilter0) \<and>
   NumBits (snd (SetLog2NumBits 34 BloomFilter0)) = 2 ^ 33 \<and>
   HasParameterError (snd (SetLog2NumBits 34 BloomFilter0)) \<and>
   (3 :: size_t) \<le> 33 \<and>
   fst (SetLog2NumBits 3 BloomFilter0) \<and>
   length (filter_' (snd (SetLog2NumBits 3 BloomFilter0))) = 8 \<and>
   ParameterErrorFlags (snd (SetLog2NumBits 3 BloomFilter0)) AND kHasLog2NumBitsError = 0 \<and>
   NumBits (BloomFilter2 34 5) = 2 ^ 33 \<and>
   HasParameterError (BloomFilter2 34 5) \<and>
   \<not> Contains example_string (BloomFilter2 34 5) ''a'' \<and>
   Contains example_string (Insert example_string (BloomFilter2 34 5) ''a'') ''a''"
proof -
  have big: "(33 :: size_t) < 34" and small: "(3 :: size_t) \<le> 33"
    by simp_all
  note clamped = SetLog2NumBits_clamp [of 34 BloomFilter0 5 example_string "''a''"]
  note valid = SetLog2NumBits_clamp [of 3 BloomFilter0 5 example_string "''a''"]
  from clamped big have "\<not> fst (SetLog2NumBits 34 BloomFilter0)"
    by simp
  moreover from clamped big have "NumBits (snd (SetLog2NumBits 34 BloomFilter0)) = 2 ^ 33"
    and "HasParameterError (snd (SetLog2NumBits 34 BloomFilter0))"
    and "NumBits (BloomFilter2 34 5) = 2 ^ 33"
    and "HasParameterError (BloomFilter2 34 5)"
    and "\<not> Contains example_string (BloomFilter2 34 5) ''a''"
    and "Contains example_string (Insert example_string (BloomFilter2 34 5) ''a'') ''a''"
    by blast+
  moreover from valid small have "fst (SetLog2NumBits 3 BloomFilter0)"
    by simp
  moreover from valid small have "length (filter_' (snd (SetLog2NumBits 3 BloomFilter0))) = 2 ^ unat (3 :: size_t)"
    and "ParameterErrorFlags (snd (SetLog2NumBits 3 BloomFilter0)) AND kHasLog2NumBitsError = 0"
    by blast+
  ultimately show ?thesis
    using big small by simp
qed

section \<open>The clamp of the hash count\<close>

text \<open>
  C6: the clamp of the hash count. \<open>SetNumHashes(k)\<close> with \<open>k < 1\<close> sets
  the hash count to 1, sets the hash-count error flag and returns false; with
  \<open>k \<ge> 1\<close> it sets the hash count to \<open>k\<close>, clears the flag and returns
  true. So the hash count is at least 1 after each of the three constructors,
  after \<open>SetNumHashes\<close>, after a \<open>SetOptimalNumHashes\<close> that returns
  (whatever value the \<open>double\<close> expression takes), and it stays so across
  \<open>SetLog2NumBits\<close>.
\<close>

theorem SetNumHashes_clamp:
  "(k < 1 \<longrightarrow>
      SetNumHashes k bf =
        (False, bf\<lparr>num_hashes_' := 1,
           parameter_error_flags_' := parameter_error_flags_' bf OR kHasNumHashesError\<rparr>) \<and>
      NumHashes (snd (SetNumHashes k bf)) = 1 \<and>
      ParameterErrorFlags (snd (SetNumHashes k bf)) AND kHasNumHashesError = kHasNumHashesError \<and>
      HasParameterError (snd (SetNumHashes k bf))) \<and>
   (1 \<le> k \<longrightarrow>
      SetNumHashes k bf =
        (True, bf\<lparr>num_hashes_' := k,
           parameter_error_flags_' := parameter_error_flags_' bf AND NOT kHasNumHashesError\<rparr>) \<and>
      NumHashes (snd (SetNumHashes k bf)) = k \<and>
      ParameterErrorFlags (snd (SetNumHashes k bf)) AND kHasNumHashesError = 0) \<and>
   1 \<le> NumHashes (snd (SetNumHashes k bf)) \<and>
   1 \<le> NumHashes BloomFilter0 \<and>
   1 \<le> NumHashes (BloomFilter1 e) \<and>
   1 \<le> NumHashes (BloomFilter2 e k) \<and>
   (\<forall>r bf'. SetOptimalNumHashes m bf = Some (r, bf') \<longrightarrow> 1 \<le> NumHashes bf') \<and>
   (\<forall>r bf'. SetOptimalNumHashes_with optimum m bf = Some (r, bf') \<longrightarrow> 1 \<le> NumHashes bf') \<and>
   (1 \<le> NumHashes bf \<longrightarrow> 1 \<le> NumHashes (snd (SetLog2NumBits e bf)))"
proof -
  have clamp: "1 \<le> (if k < 1 then 1 else k)" for k :: size_t
    by (simp add: word_le_nat_alt Suc_le_eq unat_gt_0)
  have ge: "\<not> k < 1" if "1 \<le> k"
    using that by auto
  have low: "k < 1 \<longrightarrow>
      SetNumHashes k bf =
        (False, bf\<lparr>num_hashes_' := 1,
           parameter_error_flags_' := parameter_error_flags_' bf OR kHasNumHashesError\<rparr>) \<and>
      NumHashes (snd (SetNumHashes k bf)) = 1 \<and>
      ParameterErrorFlags (snd (SetNumHashes k bf)) AND kHasNumHashesError = kHasNumHashesError \<and>
      HasParameterError (snd (SetNumHashes k bf))"
    by (simp add: SetNumHashes_def NumHashes_def ParameterErrorFlags_def HasParameterError_def
        flag_set flag_or_nonzero)
  have high: "1 \<le> k \<longrightarrow>
      SetNumHashes k bf =
        (True, bf\<lparr>num_hashes_' := k,
           parameter_error_flags_' := parameter_error_flags_' bf AND NOT kHasNumHashesError\<rparr>) \<and>
      NumHashes (snd (SetNumHashes k bf)) = k \<and>
      ParameterErrorFlags (snd (SetNumHashes k bf)) AND kHasNumHashesError = 0"
    using ge
    by (auto simp: SetNumHashes_def NumHashes_def ParameterErrorFlags_def ClearParameterError_def
        flag_clear)
  have set: "1 \<le> NumHashes (snd (SetNumHashes k bf))" for k bf
    using clamp [of k] by (simp add: NumHashes_def num_hashes_SetNumHashes)
  have ctor: "1 \<le> NumHashes (BloomFilter2 e k)" for e k
    unfolding BloomFilter2_def by (rule set)
  have "1 \<le> NumHashes BloomFilter0" and "1 \<le> NumHashes (BloomFilter1 e)"
    unfolding BloomFilter0_def BloomFilter1_def by (rule ctor)+
  moreover have "\<forall>r bf'. SetOptimalNumHashes m bf = Some (r, bf') \<longrightarrow> 1 \<le> NumHashes bf'"
    using NumHashes_SetOptimalNumHashes by blast
  moreover
  have "\<forall>r bf'. SetOptimalNumHashes_with optimum m bf = Some (r, bf') \<longrightarrow> 1 \<le> NumHashes bf'"
    using NumHashes_SetOptimalNumHashes_with by blast
  moreover have "1 \<le> NumHashes bf \<longrightarrow> 1 \<le> NumHashes (snd (SetLog2NumBits e bf))"
    by (simp add: NumHashes_def num_hashes_SetLog2NumBits)
  ultimately show ?thesis
    using low high set [of k bf] ctor [of e k] by blast
qed

theorem SetNumHashes_clamp_witness:
  "(0 :: size_t) < 1 \<and>
   SetNumHashes 0 BloomFilter0 =
     (False, BloomFilter0\<lparr>num_hashes_' := 1,
        parameter_error_flags_' := parameter_error_flags_' BloomFilter0 OR kHasNumHashesError\<rparr>) \<and>
   HasParameterError (snd (SetNumHashes 0 BloomFilter0)) \<and>
   (1 :: size_t) \<le> 7 \<and>
   fst (SetNumHashes 7 BloomFilter0) \<and>
   NumHashes (snd (SetNumHashes 7 BloomFilter0)) = 7 \<and>
   ParameterErrorFlags (snd (SetNumHashes 7 BloomFilter0)) AND kHasNumHashesError = 0 \<and>
   NumHashes (BloomFilter2 2 0) = 1"
proof -
  have low: "(0 :: size_t) < 1" and high: "(1 :: size_t) \<le> 7"
    by simp_all
  note clamped = SetNumHashes_clamp [of 0 BloomFilter0 2 1 exact_optimum]
  note valid = SetNumHashes_clamp [of 7 BloomFilter0 2 1 exact_optimum]
  from clamped low have "SetNumHashes 0 BloomFilter0 =
     (False, BloomFilter0\<lparr>num_hashes_' := 1,
        parameter_error_flags_' := parameter_error_flags_' BloomFilter0 OR kHasNumHashesError\<rparr>)"
    and "HasParameterError (snd (SetNumHashes 0 BloomFilter0))"
    by blast+
  moreover from valid high have "fst (SetNumHashes 7 BloomFilter0)"
    by simp
  moreover from valid high have "NumHashes (snd (SetNumHashes 7 BloomFilter0)) = 7"
    and "ParameterErrorFlags (snd (SetNumHashes 7 BloomFilter0)) AND kHasNumHashesError = 0"
    by blast+
  moreover have "NumHashes (BloomFilter2 2 0) = 1"
    by (simp add: NumHashes_def num_hashes_BloomFilter2)
  ultimately show ?thesis
    using low high by blast
qed

section \<open>The second hash is odd\<close>

text \<open>
  C7: the second hash before its reduction modulo \<open>N\<close>, the djb2 hash of the
  text of the value shifted left by one with the lowest bit set, is twice the
  djb2 hash plus one in 64-bit arithmetic; it is odd, and so coprime to every
  power of two.
\<close>

theorem SecondHash_raw_odd:
  "SecondHash T bf v =
     ModNumBits bf (push_bit 1 (Djb2 (plain_char_signed T) (std_to_string T v)) OR 1) \<and>
   push_bit 1 (Djb2 (plain_char_signed T) (std_to_string T v)) OR 1 =
     2 * Djb2 (plain_char_signed T) (std_to_string T v) + 1 \<and>
   odd (push_bit 1 (Djb2 (plain_char_signed T) (std_to_string T v)) OR 1) \<and>
   odd (unat (push_bit 1 (Djb2 (plain_char_signed T) (std_to_string T v)) OR 1)) \<and>
   coprime (unat (push_bit 1 (Djb2 (plain_char_signed T) (std_to_string T v)) OR 1)) (2 ^ e)"
proof -
  define raw where "raw = push_bit 1 (Djb2 (plain_char_signed T) (std_to_string T v)) OR 1"
  have odd: "odd raw"
    by (simp add: raw_def even_or_iff)
  then have odd_unat: "odd (unat raw)"
    by (rule odd_unat)
  then have "coprime (unat raw) (2 ^ e)"
    by simp
  moreover have "raw = 2 * Djb2 (plain_char_signed T) (std_to_string T v) + 1"
    by (simp add: raw_def or_one_eq push_bit_eq_mult)
  ultimately show ?thesis
    using odd odd_unat unfolding SecondHash_def raw_def by blast
qed

section \<open>Contains reads and does not write\<close>

text \<open>
  C8: \<open>Contains\<close> changes nothing, and it is true exactly when every bit at
  a probe position of the value is set, false exactly when some probe position
  holds an unset bit; under the class invariant there are \<open>NumHashes()\<close>
  probe positions, all inside the bit array.
\<close>

theorem Contains_pure:
  "after_call T bf (Call_Contains v) = bf \<and>
   (Contains T bf v \<longleftrightarrow> (\<forall>h \<in> set (Hash T bf v). filter_' bf ! unat h)) \<and>
   (\<not> Contains T bf v \<longleftrightarrow> (\<exists>h \<in> set (Hash T bf v). \<not> filter_' bf ! unat h)) \<and>
   (class_invariant bf \<longrightarrow>
      length (Hash T bf v) = unat (NumHashes bf) \<and>
      (\<forall>h \<in> set (Hash T bf v). unat h < length (filter_' bf)))"
proof -
  have "Contains T bf v \<longleftrightarrow> (\<forall>h \<in> set (Hash T bf v). filter_' bf ! unat h)"
    by (simp add: Contains_def Let_def Contains_loop_iff)
  moreover have "\<forall>h \<in> set (Hash T bf v). unat h < length (filter_' bf)"
    if "class_invariant bf"
  proof
    fix h
    assume "h \<in> set (Hash T bf v)"
    with that show "unat h < length (filter_' bf)"
      by (rule Hash_in_range)
  qed
  moreover have "after_call T bf (Call_Contains v) = bf"
    by simp
  moreover have "length (Hash T bf v) = unat (NumHashes bf)"
    by (rule length_Hash)
  ultimately show ?thesis
    by blast
qed

theorem Contains_pure_witness:
  "class_invariant (BloomFilter2 3 2) \<and>
   after_call example_string (BloomFilter2 3 2) (Call_Contains ''a'') = BloomFilter2 3 2 \<and>
   length (Hash example_string (BloomFilter2 3 2) ''a'') = unat (NumHashes (BloomFilter2 3 2)) \<and>
   \<not> Contains example_string (BloomFilter2 3 2) ''a'' \<and>
   Contains example_string (Insert example_string (BloomFilter2 3 2) ''a'') ''a''"
proof -
  have inv: "class_invariant (BloomFilter2 3 2)"
    by (rule class_invariant_BloomFilter2)
  have "\<exists>h \<in> set (Hash example_string (BloomFilter2 3 2) ''a'').
      \<not> filter_' (BloomFilter2 3 2) ! unat h"
    by code_simp
  then have no: "\<not> Contains example_string (BloomFilter2 3 2) ''a''"
    using Contains_pure [of example_string "BloomFilter2 3 2" "''a''"] by blast
  have "\<forall>h \<in> set (Hash example_string (Insert example_string (BloomFilter2 3 2) ''a'') ''a'').
      filter_' (Insert example_string (BloomFilter2 3 2) ''a'') ! unat h"
    by code_simp
  then have yes: "Contains example_string (Insert example_string (BloomFilter2 3 2) ''a'') ''a''"
    using Contains_pure
      [of example_string "Insert example_string (BloomFilter2 3 2) ''a''" "''a''"]
    by blast
  from inv have len:
    "length (Hash example_string (BloomFilter2 3 2) ''a'') = unat (NumHashes (BloomFilter2 3 2))"
    using Contains_pure [of example_string "BloomFilter2 3 2" "''a''"] by blast
  have "after_call example_string (BloomFilter2 3 two) (Call_Contains ''a'') = BloomFilter2 3 two"
    for two
    by simp
  with inv len no yes show ?thesis
    by blast
qed

section \<open>The hash utility\<close>

text \<open>
  The character that \<open>Djb2\<close> adds is not always the byte. Where plain
  \<open>char\<close> is signed, the string of the one byte 128 (0x80) hashes to 177445;
  the fold of \<open>hash * 33 + byte\<close> over its byte 128 gives 177701.
\<close>

theorem Djb2_byte_counterexample:
  "Djb2 True [CHR 0x80] = 177445 \<and>
   foldl (\<lambda>hash byte. hash * 33 + of_nat (of_char byte)) (5381 :: size_t) [CHR 0x80] = 177701 \<and>
   Djb2 True [CHR 0x80] \<noteq>
     foldl (\<lambda>hash byte. hash * 33 + of_nat (of_char byte)) (5381 :: size_t) [CHR 0x80]"
  by (simp add: Djb2_def kHashDjb2_def char_to_size_t_def)

text \<open>
  C9, as the code has it. \<open>Djb2\<close> is a function of the bytes of its argument
  and of the signedness of plain \<open>char\<close>; on the empty string it is 5381,
  and on every string it is the fold of \<open>hash = hash * 33 + c\<close> over the
  bytes from the seed 5381, in 64-bit arithmetic, where \<open>c\<close> is the byte
  itself for a byte below 128 and wherever plain \<open>char\<close> is unsigned, and
  the byte minus 256 (its sign extension, \<open>2 ^ 64 - 256 + byte\<close> as a
  64-bit number) for a byte of 128 or more where plain \<open>char\<close> is signed.
  So it is the fold of \<open>hash * 33 + byte\<close> where plain \<open>char\<close> is
  unsigned and on every string of bytes below 128.
\<close>

theorem Djb2_sign_extended:
  "Djb2 char_signed [] = 5381 \<and>
   Djb2 char_signed s =
     foldl (\<lambda>hash c. hash * 33 +
         (if char_signed \<and> 128 \<le> (of_char c :: nat) then of_nat (of_char c) - 256
          else of_nat (of_char c)))
       5381 s \<and>
   unat (Djb2 char_signed s) =
     foldl (\<lambda>hash c. (hash * 33 +
         (if char_signed \<and> 128 \<le> (of_char c :: nat) then 2 ^ 64 - 256 + of_char c
          else of_char c)) mod 2 ^ 64)
       5381 s \<and>
   Djb2 False s = foldl (\<lambda>hash c. hash * 33 + of_nat (of_char c)) 5381 s \<and>
   ((\<forall>c \<in> set s. of_char c < (128 :: nat)) \<longrightarrow>
      Djb2 char_signed s = foldl (\<lambda>hash c. hash * 33 + of_nat (of_char c)) 5381 s)"
proof (intro conjI impI)
  show "Djb2 char_signed [] = 5381"
    by (simp add: Djb2_def kHashDjb2_def)
  show "Djb2 char_signed s =
     foldl (\<lambda>hash c. hash * 33 +
         (if char_signed \<and> 128 \<le> (of_char c :: nat) then of_nat (of_char c) - 256
          else of_nat (of_char c)))
       5381 s"
    by (simp only: Djb2_def kHashDjb2_def Djb2_loop_foldl char_to_size_t_eq)
  show "unat (Djb2 char_signed s) =
     foldl (\<lambda>hash c. (hash * 33 +
         (if char_signed \<and> 128 \<le> (of_char c :: nat) then 2 ^ 64 - 256 + of_char c
          else of_char c)) mod 2 ^ 64)
       5381 s"
    using Djb2_loop_unat [of char_signed 5381 s]
    by (simp only: Djb2_def kHashDjb2_def unat_char_to_size_t) simp
  show "Djb2 False s = foldl (\<lambda>hash c. hash * 33 + of_nat (of_char c)) 5381 s"
    by (simp only: Djb2_def kHashDjb2_def Djb2_loop_foldl char_to_size_t_unsigned)
next
  assume ascii: "\<forall>c \<in> set s. of_char c < (128 :: nat)"
  have "Djb2_loop char_signed h s = foldl (\<lambda>hash c. hash * 33 + of_nat (of_char c)) h s" for h
    using ascii by (induction s arbitrary: h) (simp_all add: push_bit_eq_mult algebra_simps char_to_size_t_ascii)
  then show "Djb2 char_signed s = foldl (\<lambda>hash c. hash * 33 + of_nat (of_char c)) 5381 s"
    by (simp only: Djb2_def kHashDjb2_def)
qed

theorem Djb2_sign_extended_witness:
  "Djb2 True [] = 5381 \<and>
   Djb2 True ''a'' = 177670 \<and>
   unat (Djb2 True ''a'') = 177670 \<and>
   Djb2 True [CHR 0x80] = 177445 \<and>
   Djb2 False [CHR 0x80] = 177701"
proof -
  have ascii: "\<forall>c \<in> set ''a''. of_char c < (128 :: nat)"
    by simp
  note a = Djb2_sign_extended [of True "''a''"]
  note h = Djb2_sign_extended [of True "[CHR 0x80]"]
  from a ascii have "Djb2 True ''a'' = foldl (\<lambda>hash c. hash * 33 + of_nat (of_char c)) 5381 ''a''"
    by blast
  then have "Djb2 True ''a'' = 177670"
    by simp
  moreover from this have "unat (Djb2 True ''a'') = 177670"
    by simp
  moreover from h have "Djb2 True [CHR 0x80] = 177445" and "Djb2 False [CHR 0x80] = 177701"
    by simp_all
  moreover from a have "Djb2 True [] = 5381"
    by blast
  ultimately show ?thesis
    by blast
qed

end
